theory Spec2Isabelle
  imports Complex_Main "HOL-Library.Multiset" "HOL-Library.Sublist"
begin

section \<open>JavaScript values\<close>

subsection \<open>Strings\<close>

text \<open>
  A JavaScript string is its sequence of UTF-16 code units; \<open>length\<close> counts code units,
  as \<^verbatim>\<open>String.prototype.length\<close> does. The Japanese keywords of the link catalogue need
  code units beyond one byte, so a code unit is a natural number. \<open>str\<close> turns an ASCII
  literal into such a string.
\<close>

type_synonym jschar = nat
type_synonym jsstring = "jschar list"

definition str :: "string \<Rightarrow> jsstring" where
  "str s = map of_char s"

text \<open>\<^verbatim>\<open>s.startsWith(t)\<close> and \<^verbatim>\<open>s.includes(t)\<close>.\<close>

fun startsWith :: "'a list \<Rightarrow> 'a list \<Rightarrow> bool" where
  "startsWith s [] = True"
| "startsWith [] (c # t) = False"
| "startsWith (x # s) (c # t) = (x = c \<and> startsWith s t)"

fun js_includes :: "'a list \<Rightarrow> 'a list \<Rightarrow> bool" where
  "js_includes [] t = (t = [])"
| "js_includes (x # s) t = (startsWith (x # s) t \<or> js_includes s t)"

text \<open>\<^verbatim>\<open>xs.slice(b, e)\<close> and \<^verbatim>\<open>xs.slice(b)\<close> for indices that are not negative.\<close>

definition slice :: "nat \<Rightarrow> nat \<Rightarrow> 'a list \<Rightarrow> 'a list" where
  "slice b e xs = take (e - b) (drop b xs)"

definition slice_from :: "nat \<Rightarrow> 'a list \<Rightarrow> 'a list" where
  "slice_from b xs = drop b xs"

text \<open>
  Case mapping is Unicode data, which is not part of the repository. The functions that
  lower-case take it as a parameter: \<open>toLowerCase\<close> is \<^verbatim>\<open>String.prototype.toLowerCase\<close> (a
  function on whole strings, since some characters lower-case to two code units), and
  \<open>canonicalize\<close> is the per-code-unit folding a regular expression with the \<^verbatim>\<open>i\<close> flag
  compares under. \<open>ascii_tables\<close> is their restriction to ASCII letters.
\<close>

record unicode =
  toLowerCase :: "jsstring \<Rightarrow> jsstring"
  canonicalize :: "jschar \<Rightarrow> jschar"

definition ascii_lower :: "jschar \<Rightarrow> jschar" where
  "ascii_lower c = (if 65 \<le> c \<and> c \<le> 90 then c + 32 else c)"

definition ascii_upper :: "jschar \<Rightarrow> jschar" where
  "ascii_upper c = (if 97 \<le> c \<and> c \<le> 122 then c - 32 else c)"

definition ascii_tables :: unicode where
  "ascii_tables = \<lparr>toLowerCase = map ascii_lower, canonicalize = ascii_upper\<rparr>"

subsection \<open>Numbers\<close>

text \<open>
  A JavaScript number is an IEEE 754 binary64 value. \<open>fl\<close> rounds a rational to the nearest
  value with a 53-bit significand, ties to the even significand; the result of \<^verbatim>\<open>/\<close>,
  \<^verbatim>\<open>*\<close> and \<^verbatim>\<open>+\<close> is \<open>fl\<close> of the exact result. The exponent is not bounded here: the
  scorer divides counts below \<open>2^32\<close> and multiplies by at most 50, far from overflow and
  underflow.
\<close>

function bits :: "int \<Rightarrow> int" where
  "bits n = (if n \<le> 0 then 0 else 1 + bits (n div 2))"
  by pat_completeness auto
termination
  by (relation "measure nat") auto

declare bits.simps [simp del]

definition pow2 :: "int \<Rightarrow> rat" where
  "pow2 k = (if 0 \<le> k then 2 ^ nat k else 1 / 2 ^ nat (- k))"

definition round_half_even :: "rat \<Rightarrow> int" where
  "round_half_even m =
     (let f = \<lfloor>m\<rfloor>; d = m - of_int f
      in if d < 1 / 2 then f
         else if 1 / 2 < d then f + 1
         else if even f then f else f + 1)"

definition binary_exponent :: "rat \<Rightarrow> int" where
  "binary_exponent q =
     (let (a, b) = quotient_of q;
          d = bits a - bits b
      in if pow2 d \<le> q then d else d - 1)"

definition fl_pos :: "rat \<Rightarrow> rat" where
  "fl_pos q =
     (let e = binary_exponent q - 52
      in of_int (round_half_even (q / pow2 e)) * pow2 e)"

definition fl :: "rat \<Rightarrow> rat" where
  "fl q = (if q = 0 then 0 else if q < 0 then - fl_pos (- q) else fl_pos q)"

definition js_div :: "rat \<Rightarrow> rat \<Rightarrow> rat" where
  "js_div a b = fl (a / b)"

definition js_mul :: "rat \<Rightarrow> rat \<Rightarrow> rat" where
  "js_mul a b = fl (a * b)"

definition js_add :: "rat \<Rightarrow> rat \<Rightarrow> rat" where
  "js_add a b = fl (a + b)"

text \<open>\<^verbatim>\<open>Math.round\<close>: the nearest integer, a tie going up.\<close>

definition Math_round :: "rat \<Rightarrow> int" where
  "Math_round x = \<lfloor>x + 1 / 2\<rfloor>"

section \<open>SEO Scorer\<close>

text \<open>
  \<^verbatim>\<open>countOccurrences(content, term)\<close> builds the regular expression that matches \<open>term\<close>
  literally (\<^verbatim>\<open>escapeRegex\<close> escapes every special character) with flags \<^verbatim>\<open>gi\<close> and
  counts the matches \<^verbatim>\<open>content.match\<close> returns: matches are found left to right and do not
  overlap; an empty pattern matches once at every position, the end included. Under the
  \<^verbatim>\<open>i\<close> flag two code units match when their canonical forms are equal
  (\<open>matches_literal\<close>).
\<close>

fun matches_literal :: "(jschar \<Rightarrow> jschar) \<Rightarrow> jsstring \<Rightarrow> jsstring \<Rightarrow> bool" where
  "matches_literal cn s [] = True"
| "matches_literal cn [] (c # t) = False"
| "matches_literal cn (x # s) (c # t) = (cn x = cn c \<and> matches_literal cn s t)"

function regex_count :: "(jschar \<Rightarrow> jschar) \<Rightarrow> jsstring \<Rightarrow> jsstring \<Rightarrow> nat" where
  "regex_count cn [] t = (if t = [] then 1 else 0)"
| "regex_count cn (x # s) t =
     (if matches_literal cn (x # s) t
      then 1 + regex_count cn (drop (length t - 1) s) t
      else regex_count cn s t)"
  by pat_completeness auto
termination
  by (relation "measure (\<lambda>(cn, s, t). length s)") auto

definition countOccurrences :: "unicode \<Rightarrow> jsstring \<Rightarrow> jsstring \<Rightarrow> nat" where
  "countOccurrences U content term = regex_count (canonicalize U) content term"

record NeuronWriterAnalysis =
  queryId :: "jsstring option"
  recommendedTerms :: "jsstring list"
  competitorHeadings :: "jsstring list"
  wordCountTarget :: nat

text \<open>
  The result of \<^verbatim>\<open>calculateScore\<close>. The library version returns all four fields (and
  display strings \<^verbatim>\<open>suggestions\<close>, which nothing reads and which are left out); the edge
  function's copy returns \<open>percentage\<close> and \<open>missingTerms\<close>, computed by the same statements.
\<close>

record NeuronWriterScore =
  score :: nat
  maxScore :: nat
  percentage :: int
  missingTerms :: "jsstring list"

text \<open>The three \<^verbatim>\<open>for ... of\<close> loops, each with the variables it assigns.\<close>

fun critical_loop ::
  "unicode \<Rightarrow> jsstring \<Rightarrow> jsstring list \<Rightarrow> nat \<times> jsstring list \<Rightarrow> nat \<times> jsstring list" where
  "critical_loop U contentLower [] acc = acc"
| "critical_loop U contentLower (term # rest) (criticalScore, missingCritical) =
     (let count = countOccurrences U contentLower (toLowerCase U term)
      in if 3 \<le> count
         then critical_loop U contentLower rest (criticalScore + 3, missingCritical)
         else if 1 \<le> count
         then critical_loop U contentLower rest (criticalScore + count, missingCritical @ [term])
         else critical_loop U contentLower rest (criticalScore, missingCritical @ [term]))"

fun important_loop ::
  "unicode \<Rightarrow> jsstring \<Rightarrow> jsstring list \<Rightarrow> nat \<times> jsstring list \<Rightarrow> nat \<times> jsstring list" where
  "important_loop U contentLower [] acc = acc"
| "important_loop U contentLower (term # rest) (importantScore, missingImportant) =
     (let count = countOccurrences U contentLower (toLowerCase U term)
      in if 1 \<le> count
         then important_loop U contentLower rest (importantScore + min count 2, missingImportant)
         else important_loop U contentLower rest (importantScore, missingImportant @ [term]))"

fun supporting_loop :: "unicode \<Rightarrow> jsstring \<Rightarrow> jsstring list \<Rightarrow> nat \<Rightarrow> nat" where
  "supporting_loop U contentLower [] supportingScore = supportingScore"
| "supporting_loop U contentLower (term # rest) supportingScore =
     (if js_includes contentLower (toLowerCase U term)
      then supporting_loop U contentLower rest (supportingScore + 1)
      else supporting_loop U contentLower rest supportingScore)"

definition calculateScore :: "unicode \<Rightarrow> jsstring \<Rightarrow> NeuronWriterAnalysis \<Rightarrow> NeuronWriterScore" where
  "calculateScore U content analysis =
     (let contentLower = toLowerCase U content;
          criticalTerms = slice 0 10 (recommendedTerms analysis);
          importantTerms = slice 10 25 (recommendedTerms analysis);
          supportingTerms = slice_from 25 (recommendedTerms analysis);
          (criticalScore, missingCritical) = critical_loop U contentLower criticalTerms (0, []);
          (importantScore, missingImportant) = important_loop U contentLower importantTerms (0, []);
          supportingScore = supporting_loop U contentLower supportingTerms 0;
          maxCritical = length criticalTerms * 3;
          maxImportant = length importantTerms * 2;
          maxSupporting = length supportingTerms;
          totalScore = criticalScore + importantScore + supportingScore;
          maxScore' = maxCritical + maxImportant + maxSupporting;
          criticalPct = (if 0 < maxCritical
             then js_mul (js_div (of_nat criticalScore) (of_nat maxCritical)) 50 else 50);
          importantPct = (if 0 < maxImportant
             then js_mul (js_div (of_nat importantScore) (of_nat maxImportant)) 30 else 30);
          supportingPct = (if 0 < maxSupporting
             then js_mul (js_div (of_nat supportingScore) (of_nat maxSupporting)) 20 else 20);
          percentage' = Math_round (js_add (js_add criticalPct importantPct) supportingPct)
      in \<lparr>score = totalScore, maxScore = maxScore', percentage = percentage',
          missingTerms = missingCritical @ slice 0 5 missingImportant\<rparr>)"


subsection \<open>The scorer as the specification words it\<close>

text \<open>
  The number of occurrences of a term in a text and its presence, both compared in lower
  case, as the scorer compares them.
\<close>

definition occurrences :: "unicode \<Rightarrow> jsstring \<Rightarrow> jsstring \<Rightarrow> nat" where
  "occurrences U content term =
     countOccurrences U (toLowerCase U content) (toLowerCase U term)"

definition present :: "unicode \<Rightarrow> jsstring \<Rightarrow> jsstring \<Rightarrow> bool" where
  "present U content term = js_includes (toLowerCase U content) (toLowerCase U term)"

text \<open>
  Points of one term: a critical term earns 3 points from three occurrences on and one
  point per occurrence below that; an important term earns 2 points from two occurrences
  on; a supporting term earns 1 point when it is present.
\<close>

definition critical_points :: "nat \<Rightarrow> nat" where
  "critical_points n = (if 3 \<le> n then 3 else n)"

definition important_points :: "nat \<Rightarrow> nat" where
  "important_points n = (if 2 \<le> n then 2 else n)"

definition supporting_points :: "bool \<Rightarrow> nat" where
  "supporting_points b = (if b then 1 else 0)"

definition critical_tier :: "jsstring list \<Rightarrow> jsstring list" where
  "critical_tier terms = take 10 terms"

definition important_tier :: "jsstring list \<Rightarrow> jsstring list" where
  "important_tier terms = take 15 (drop 10 terms)"

definition supporting_tier :: "jsstring list \<Rightarrow> jsstring list" where
  "supporting_tier terms = drop 25 terms"

definition critical_score :: "unicode \<Rightarrow> jsstring \<Rightarrow> jsstring list \<Rightarrow> nat" where
  "critical_score U content terms =
     (\<Sum>t\<leftarrow>critical_tier terms. critical_points (occurrences U content t))"

definition important_score :: "unicode \<Rightarrow> jsstring \<Rightarrow> jsstring list \<Rightarrow> nat" where
  "important_score U content terms =
     (\<Sum>t\<leftarrow>important_tier terms. important_points (occurrences U content t))"

definition supporting_score :: "unicode \<Rightarrow> jsstring \<Rightarrow> jsstring list \<Rightarrow> nat" where
  "supporting_score U content terms =
     (\<Sum>t\<leftarrow>supporting_tier terms. supporting_points (present U content t))"

text \<open>
  The share of a tier: achieved points over the tier's maximum, times the tier's weight,
  in the arithmetic of JavaScript numbers; the full weight when the tier has no term.
\<close>

definition tier_share :: "nat \<Rightarrow> nat \<Rightarrow> rat \<Rightarrow> rat" where
  "tier_share achieved maximum weight =
     (if maximum = 0 then weight
      else js_mul (js_div (of_nat achieved) (of_nat maximum)) weight)"

definition critical_share :: "unicode \<Rightarrow> jsstring \<Rightarrow> jsstring list \<Rightarrow> rat" where
  "critical_share U content terms =
     tier_share (critical_score U content terms) (3 * length (critical_tier terms)) 50"

definition important_share :: "unicode \<Rightarrow> jsstring \<Rightarrow> jsstring list \<Rightarrow> rat" where
  "important_share U content terms =
     tier_share (important_score U content terms) (2 * length (important_tier terms)) 30"

definition supporting_share :: "unicode \<Rightarrow> jsstring \<Rightarrow> jsstring list \<Rightarrow> rat" where
  "supporting_share U content terms =
     tier_share (supporting_score U content terms) (length (supporting_tier terms)) 20"

definition spec_percentage :: "unicode \<Rightarrow> jsstring \<Rightarrow> jsstring list \<Rightarrow> int" where
  "spec_percentage U content terms =
     Math_round (js_add (js_add (critical_share U content terms)
                                (important_share U content terms))
                        (supporting_share U content terms))"

text \<open>
  The same percentage with the sum as the specification writes it, in exact arithmetic:
  every tier's share is (achieved / maximum) times its weight, and the sum of the three
  shares is rounded once.
\<close>

definition exact_share :: "nat \<Rightarrow> nat \<Rightarrow> rat \<Rightarrow> rat" where
  "exact_share achieved maximum weight =
     (if maximum = 0 then weight else of_nat achieved / of_nat maximum * weight)"

definition exact_percentage :: "unicode \<Rightarrow> jsstring \<Rightarrow> jsstring list \<Rightarrow> int" where
  "exact_percentage U content terms =
     Math_round
       (exact_share (critical_score U content terms) (3 * length (critical_tier terms)) 50 +
        exact_share (important_score U content terms) (2 * length (important_tier terms)) 30 +
        exact_share (supporting_score U content terms) (length (supporting_tier terms)) 20)"

text \<open>
  A term list of ten critical, fifteen important and twenty-four supporting terms, and a
  content with the first critical term once, no important term and thirteen of the
  supporting terms: 1 of 30 critical points, 0 of 30 important points and 13 of 24
  supporting points.
\<close>

definition half_point_terms :: "jsstring list" where
  "half_point_terms =
     map str [''a'', ''b'', ''c'', ''d'', ''e'', ''f'', ''g'', ''h'', ''i'', ''j'',
              ''k'', ''l'', ''m'', ''n'', ''o'', ''p'', ''q'', ''r'', ''s'', ''t'',
              ''u'', ''v'', ''w'', ''x'', ''y'',
              ''z'', ''a0'', ''01'', ''12'', ''23'', ''34'', ''45'', ''56'', ''67'', ''78'',
              ''89'', ''9z'', ''0'',
              ''aa'', ''bb'', ''cc'', ''dd'', ''ee'', ''ff'', ''gg'', ''hh'', ''ii'', ''jj'',
              ''kk'']"

definition half_point_analysis :: NeuronWriterAnalysis where
  "half_point_analysis = \<lparr>queryId = None, recommendedTerms = half_point_terms,
     competitorHeadings = [], wordCountTarget = 0\<rparr>"

definition half_point_content :: jsstring where
  "half_point_content = str ''a0123456789z''"

text \<open>A term list of ten critical, fifteen important and five supporting terms.\<close>

definition thirty_terms :: "jsstring list" where
  "thirty_terms =
     map str [''a'', ''b'', ''c'', ''d'', ''e'', ''f'', ''g'', ''h'', ''i'', ''j'',
              ''k'', ''l'', ''m'', ''n'', ''o'', ''p'', ''q'', ''r'', ''s'', ''t'',
              ''u'', ''v'', ''w'', ''x'', ''y'',
              ''5'', ''6'', ''7'', ''8'', ''9'']"

definition thirty_analysis :: NeuronWriterAnalysis where
  "thirty_analysis = \<lparr>queryId = None, recommendedTerms = thirty_terms,
     competitorHeadings = [], wordCountTarget = 0\<rparr>"

text \<open>A text with every critical term of \<open>thirty_terms\<close> three times and no other term.\<close>

definition critical_only_content :: jsstring where
  "critical_only_content =
     str ''aaa bbb ccc ddd eee fff ggg hhh iii jjj''"


text \<open>A term list of one critical term.\<close>

definition one_term_analysis :: NeuronWriterAnalysis where
  "one_term_analysis = \<lparr>queryId = None, recommendedTerms = [str ''seo''],
     competitorHeadings = [], wordCountTarget = 0\<rparr>"

section \<open>Content Post-Processor: link deduplication\<close>

text \<open>
  \<^verbatim>\<open>dedupeInternalLinks\<close> is one \<^verbatim>\<open>content.replace\<close> with the global regular expression
  \<^verbatim>\<open>/\[([^\]]+)\]\((https:\/\/www\.habitto\.com[^)]+)\)/g\<close> and a callback.
  \<open>match_link s\<close> is a match of that expression at the start of \<open>s\<close>: an opening bracket,
  the anchor text (one or more code units other than the closing bracket, so all of them up
  to the first closing bracket), \<^verbatim>\<open>](\<close>, the URL (the fixed prefix and one or more code
  units other than the closing parenthesis) and the closing parenthesis. Both repetitions
  are greedy and the code unit that must follow each is the one it excludes, so the match at
  a position is unique. The result is the matched text and the two groups.
\<close>

abbreviation LBRACKET :: jschar where "LBRACKET \<equiv> 91"
abbreviation RBRACKET :: jschar where "RBRACKET \<equiv> 93"
abbreviation LPAREN :: jschar where "LPAREN \<equiv> 40"
abbreviation RPAREN :: jschar where "RPAREN \<equiv> 41"
abbreviation SLASH :: jschar where "SLASH \<equiv> 47"

definition habitto_prefix :: jsstring where
  "habitto_prefix = str ''https://www.habitto.com''"

definition match_link :: "jsstring \<Rightarrow> (jsstring \<times> jsstring \<times> jsstring) option" where
  "match_link s =
     (case s of
        [] \<Rightarrow> None
      | x # s1 \<Rightarrow>
          if x \<noteq> LBRACKET then None
          else
            let text = takeWhile (\<lambda>c. c \<noteq> RBRACKET) s1;
                s2 = dropWhile (\<lambda>c. c \<noteq> RBRACKET) s1
            in if text = [] then None
               else if \<not> startsWith s2 (RBRACKET # LPAREN # habitto_prefix) then None
               else
                 let s3 = drop (2 + length habitto_prefix) s2;
                     tail = takeWhile (\<lambda>c. c \<noteq> RPAREN) s3;
                     s4 = dropWhile (\<lambda>c. c \<noteq> RPAREN) s3
                 in if tail = [] \<or> s4 = [] then None
                    else Some ([LBRACKET] @ text @ [RBRACKET, LPAREN] @ habitto_prefix @ tail
                                 @ [RPAREN],
                               text, habitto_prefix @ tail))"

text \<open>\<^verbatim>\<open>url.replace(/\/$/, '')\<close>: one slash at the very end is removed.\<close>

definition normalizeUrl :: "jsstring \<Rightarrow> jsstring" where
  "normalizeUrl url = (if url \<noteq> [] \<and> last url = SLASH then butlast url else url)"

text \<open>
  The replacement scans the text from the left. Where the expression matches, the callback
  runs with the set \<open>seenUrls\<close> as it is then, and the scan goes on behind the match
  (a match is never empty, so that is \<open>length match - 1\<close> code units into the rest); where
  it does not match, the code unit is copied.
\<close>

function dedupe_from :: "jsstring set \<Rightarrow> jsstring \<Rightarrow> jsstring" where
  "dedupe_from seenUrls [] = []"
| "dedupe_from seenUrls (x # s) =
     (case match_link (x # s) of
        None \<Rightarrow> x # dedupe_from seenUrls s
      | Some (match, text, url) \<Rightarrow>
          let normalizedUrl = normalizeUrl url
          in if normalizedUrl \<in> seenUrls
             then text @ dedupe_from seenUrls (drop (length match - 1) s)
             else match @ dedupe_from (insert normalizedUrl seenUrls)
                                      (drop (length match - 1) s))"
  by pat_completeness auto
termination
  by (relation "measure (\<lambda>(seenUrls, s). length s)") auto

definition dedupeInternalLinks :: "jsstring \<Rightarrow> jsstring" where
  "dedupeInternalLinks content = dedupe_from {} content"

subsection \<open>Link deduplication as the specification words it\<close>

text \<open>
  The document in document order: the internal links the expression finds, and the code
  units between them.
\<close>

datatype token = Plain jschar | Link jsstring jsstring

function tokens :: "jsstring \<Rightarrow> token list" where
  "tokens [] = []"
| "tokens (x # s) =
     (case match_link (x # s) of
        None \<Rightarrow> Plain x # tokens s
      | Some (match, text, url) \<Rightarrow> Link text url # tokens (drop (length match - 1) s))"
  by pat_completeness auto
termination
  by (relation "measure length") auto

fun markup :: "token \<Rightarrow> jsstring" where
  "markup (Plain c) = [c]"
| "markup (Link text url) = [LBRACKET] @ text @ [RBRACKET, LPAREN] @ url @ [RPAREN]"

text \<open>The normalized URLs of the links of a token list, in order.\<close>

fun link_urls :: "token list \<Rightarrow> jsstring list" where
  "link_urls [] = []"
| "link_urls (Plain c # ts) = link_urls ts"
| "link_urls (Link text url # ts) = normalizeUrl url # link_urls ts"

text \<open>
  What the pass writes for the token at position \<open>i\<close>: a link whose normalized URL occurs
  among the links before it becomes its bare anchor text; every other token stays.
\<close>

definition rewrite_at :: "token list \<Rightarrow> nat \<Rightarrow> jsstring" where
  "rewrite_at ts i =
     (case ts ! i of
        Plain c \<Rightarrow> [c]
      | Link text url \<Rightarrow>
          if normalizeUrl url \<in> set (link_urls (take i ts)) then text
          else markup (Link text url))"

text \<open>
  The same with a set of URLs taken as seen before the first token; the callback's set
  \<open>seenUrls\<close> is in that state when the scan reaches a later part of the document.
\<close>

definition rewrite_from :: "jsstring set \<Rightarrow> token list \<Rightarrow> nat \<Rightarrow> jsstring" where
  "rewrite_from seen ts i =
     (case ts ! i of
        Plain c \<Rightarrow> [c]
      | Link text url \<Rightarrow>
          if normalizeUrl url \<in> seen \<union> set (link_urls (take i ts)) then text
          else markup (Link text url))"

text \<open>
  An internal link in markdown, and the condition under which anchor text and URL form
  one: an anchor text that is not empty and has no closing bracket, and a URL that extends
  the fixed prefix by at least one code unit and has no closing parenthesis behind it.
\<close>

definition is_internal_link :: "jsstring \<Rightarrow> jsstring \<Rightarrow> bool" where
  "is_internal_link text url =
     (text \<noteq> [] \<and> RBRACKET \<notin> set text \<and> startsWith url habitto_prefix \<and>
      length habitto_prefix < length url \<and> RPAREN \<notin> set (drop (length habitto_prefix) url))"

definition link :: "jsstring \<Rightarrow> jsstring \<Rightarrow> jsstring" where
  "link text url = [LBRACKET] @ text @ [RBRACKET, LPAREN] @ url @ [RPAREN]"

text \<open>
  A document that links the same page three times, and one that links a page twice, the
  second link inside the brackets of another link.
\<close>

definition account_url :: jsstring where
  "account_url = str ''https://www.habitto.com/account''"

definition three_links_doc :: jsstring where
  "three_links_doc =
     str ''See '' @ link (str ''one'') (account_url @ [SLASH]) @ str '', '' @
     link (str ''two'') account_url @ str '' and '' @
     link (str ''three'') (account_url @ [SLASH]) @ str ''.''"

definition nested_links_doc :: jsstring where
  "nested_links_doc =
     link (str ''a'') account_url @ [LBRACKET] @ link (str ''b'') account_url @
     [RBRACKET, LPAREN] @ account_url @ [RPAREN]"

text \<open>
  A document in which the expression finds three links to the account page, the first with
  a trailing slash, the second with an anchor text that begins with an opening bracket and
  with \<^verbatim>\<open>](\<close>, the URL and \<^verbatim>\<open>)\<close> once more behind it:
  \<^verbatim>\<open>[a](https://www.habitto.com/account/)[[b](https://www.habitto.com/account)](https://www.habitto.com/account)[c](https://www.habitto.com/account)\<close>.
\<close>

definition bracket_anchor_doc :: jsstring where
  "bracket_anchor_doc =
     link (str ''a'') (account_url @ [SLASH]) @ link (str ''[b'') account_url @
     [RBRACKET, LPAREN] @ account_url @ [RPAREN] @ link (str ''c'') account_url"

section \<open>Link Placer\<close>

text \<open>
  A page of the link catalogue. The library's catalogue also has a title, a service tag and
  a differentiator text for each page, which \<^verbatim>\<open>suggestLinks\<close> does not read (the title is
  only copied into the result); the edge function's catalogue has no anchors.
\<close>

record HabittoPage =
  page_url :: jsstring
  page_keywords :: "jsstring list"
  page_anchors :: "jsstring list"
  page_priority :: nat

text \<open>
  An insertion: paragraph index, anchor text, URL, and the priority of the page. The edge
  function keeps the priority on its candidates and leaves it out of the result.
\<close>

record Suggestion =
  paragraph_index :: nat
  anchorText :: jsstring
  link_url :: jsstring
  link_priority :: nat

text \<open>
  The catalogues of the edge function and of the library, the Japanese keywords as UTF-16
  code units.
\<close>

definition HABITTO_PAGES :: "HabittoPage list" where
  "HABITTO_PAGES =
     [\<lparr>page_url = str ''https://www.habitto.com/account/'',
       page_keywords =
         [[0x8CAF, 0x84C4, 0x53E3, 0x5EA7], [0x91D1, 0x5229], str ''0.5%'', [0x5E74, 0x5229],
          [0x9810, 0x91D1], [0x8CAF, 0x3081, 0x308B], [0x5229, 0x606F],
          [0x9AD8, 0x91D1, 0x5229], [0x5B9A, 0x671F, 0x9810, 0x91D1],
          [0x30CD, 0x30C3, 0x30C8, 0x9280, 0x884C], [0x666E, 0x901A, 0x9810, 0x91D1]],
       page_anchors =
         [],
       page_priority = 1\<rparr>,
      \<lparr>page_url = str ''https://www.habitto.com/card/'',
       page_keywords =
         [[0x30C7, 0x30D3, 0x30C3, 0x30C8, 0x30AB, 0x30FC, 0x30C9],
          [0x30AD, 0x30E3, 0x30C3, 0x30B7, 0x30E5, 0x30D0, 0x30C3, 0x30AF], str ''0.8%'',
          [0x9084, 0x5143], str ''Visa'', str ''ATM'', [0x4F7F, 0x3044, 0x3059, 0x304E],
          [0x30AD, 0x30E3, 0x30C3, 0x30B7, 0x30E5, 0x30EC, 0x30B9], [0x6C7A, 0x6E08]],
       page_anchors =
         [],
       page_priority = 1\<rparr>,
      \<lparr>page_url = str ''https://www.habitto.com/advisor/'',
       page_keywords =
         [[0x30A2, 0x30C9, 0x30D0, 0x30A4, 0x30B6, 0x30FC], [0x76F8, 0x8AC7],
          [0x7121, 0x6599, 0x76F8, 0x8AC7], str ''FP'', str ''NISA'', [0x4FDD, 0x967A],
          [0x30E9, 0x30A4, 0x30D5, 0x30D7, 0x30E9, 0x30F3], [0x6295, 0x8CC7, 0x4FE1, 0x8A17],
          str ''iDeCo'', [0x8001, 0x5F8C, 0x8CC7, 0x91D1],
          [0x30D5, 0x30A1, 0x30A4, 0x30CA, 0x30F3, 0x30B7, 0x30E3, 0x30EB]],
       page_anchors =
         [],
       page_priority = 1\<rparr>,
      \<lparr>page_url = str ''https://www.habitto.com/people-like-you/'',
       page_keywords =
         [[0x30EC, 0x30D3, 0x30E5, 0x30FC], [0x53E3, 0x30B3, 0x30DF],
          [0x4F53, 0x9A13, 0x8AC7], [0x8A55, 0x5224], [0x5229, 0x7528, 0x8005],
          [0x30E6, 0x30FC, 0x30B6, 0x30FC]],
       page_anchors =
         [],
       page_priority = 2\<rparr>,
      \<lparr>page_url = str ''https://www.habitto.com/'',
       page_keywords =
         [str ''Habitto'', [0x30CF, 0x30D3, 0x30C8]],
       page_anchors =
         [],
       page_priority = 3\<rparr>]"

definition HABITTO_PAGES_lib :: "HabittoPage list" where
  "HABITTO_PAGES_lib =
     [\<lparr>page_url = str ''https://www.habitto.com/account/'',
       page_keywords =
         [[0x8CAF, 0x84C4, 0x53E3, 0x5EA7], [0x91D1, 0x5229], str ''0.5%'', [0x5E74, 0x5229],
          [0x9810, 0x91D1], [0x8CAF, 0x3081, 0x308B], [0x5229, 0x606F],
          [0x9AD8, 0x91D1, 0x5229], [0x5B9A, 0x671F, 0x9810, 0x91D1],
          [0x30CD, 0x30C3, 0x30C8, 0x9280, 0x884C], [0x666E, 0x901A, 0x9810, 0x91D1]],
       page_anchors =
         [str ''Habitto'' @ [0x306E, 0x8CAF, 0x84C4, 0x53E3, 0x5EA7],
          [0x5E74, 0x5229] @ str ''0.5%'' @ [0x306E, 0x53E3, 0x5EA7],
          [0x9AD8, 0x91D1, 0x5229, 0x306E, 0x8CAF, 0x84C4, 0x53E3, 0x5EA7],
          [0x6761, 0x4EF6, 0x306A, 0x3057, 0x3067, 0x5E74, 0x5229] @ str ''0.5%''],
       page_priority = 1\<rparr>,
      \<lparr>page_url = str ''https://www.habitto.com/card/'',
       page_keywords =
         [[0x30C7, 0x30D3, 0x30C3, 0x30C8, 0x30AB, 0x30FC, 0x30C9],
          [0x30AD, 0x30E3, 0x30C3, 0x30B7, 0x30E5, 0x30D0, 0x30C3, 0x30AF], str ''0.8%'',
          [0x9084, 0x5143], str ''Visa'', str ''ATM'', [0x4F7F, 0x3044, 0x3059, 0x304E],
          [0x30AD, 0x30E3, 0x30C3, 0x30B7, 0x30E5, 0x30EC, 0x30B9], [0x6C7A, 0x6E08]],
       page_anchors =
         [str ''Habitto'' @ [0x306E, 0x30C7, 0x30D3, 0x30C3, 0x30C8, 0x30AB, 0x30FC, 0x30C9],
          str ''0.8%'' @ [0x9084, 0x5143, 0x306E, 0x30C7, 0x30D3, 0x30C3, 0x30C8, 0x30AB, 0x30FC, 0x30C9],
          [0x30AD, 0x30E3, 0x30C3, 0x30B7, 0x30E5, 0x30D0, 0x30C3, 0x30AF, 0x4ED8, 0x304D, 0x30AB, 0x30FC, 0x30C9]],
       page_priority = 1\<rparr>,
      \<lparr>page_url = str ''https://www.habitto.com/advisor/'',
       page_keywords =
         [[0x30A2, 0x30C9, 0x30D0, 0x30A4, 0x30B6, 0x30FC], [0x76F8, 0x8AC7],
          [0x7121, 0x6599, 0x76F8, 0x8AC7], str ''FP'', str ''NISA'', [0x4FDD, 0x967A],
          [0x30E9, 0x30A4, 0x30D5, 0x30D7, 0x30E9, 0x30F3], [0x6295, 0x8CC7, 0x4FE1, 0x8A17],
          str ''iDeCo'', [0x8001, 0x5F8C, 0x8CC7, 0x91D1],
          [0x30D5, 0x30A1, 0x30A4, 0x30CA, 0x30F3, 0x30B7, 0x30E3, 0x30EB]],
       page_anchors =
         [str ''Habitto'' @ [0x30A2, 0x30C9, 0x30D0, 0x30A4, 0x30B6, 0x30FC],
          [0x7121, 0x6599, 0x306E, 0x30D5, 0x30A1, 0x30A4, 0x30CA, 0x30F3, 0x30B7, 0x30E3, 0x30EB, 0x30A2, 0x30C9, 0x30D0, 0x30A4, 0x30B6, 0x30FC],
          [0x30D7, 0x30ED, 0x306B, 0x76F8, 0x8AC7]],
       page_priority = 1\<rparr>,
      \<lparr>page_url = str ''https://www.habitto.com/people-like-you/'',
       page_keywords =
         [[0x30EC, 0x30D3, 0x30E5, 0x30FC], [0x53E3, 0x30B3, 0x30DF],
          [0x4F53, 0x9A13, 0x8AC7], [0x8A55, 0x5224], [0x5229, 0x7528, 0x8005],
          [0x30E6, 0x30FC, 0x30B6, 0x30FC]],
       page_anchors =
         [[0x5B9F, 0x969B, 0x306B, 0x4F7F, 0x3063, 0x3066, 0x3044, 0x308B, 0x4EBA, 0x306E, 0x58F0],
          [0x304A, 0x5BA2, 0x69D8, 0x306E, 0x4F53, 0x9A13, 0x8AC7],
          str ''Habitto'' @ [0x30E6, 0x30FC, 0x30B6, 0x30FC, 0x306E, 0x58F0]],
       page_priority = 2\<rparr>,
      \<lparr>page_url = str ''https://www.habitto.com/'',
       page_keywords =
         [str ''Habitto'', [0x30CF, 0x30D3, 0x30C8]],
       page_anchors =
         [str ''Habitto'', str ''Habitto'' @ [0x516C, 0x5F0F, 0x30B5, 0x30A4, 0x30C8]],
       page_priority = 3\<rparr>,
      \<lparr>page_url = str ''https://www.habitto.com/app/'',
       page_keywords =
         [[0x30A2, 0x30D7, 0x30EA], [0x30C0, 0x30A6, 0x30F3, 0x30ED, 0x30FC, 0x30C9],
          str ''iOS'', str ''Android'', [0x30B9, 0x30DE, 0x30DB]],
       page_anchors =
         [str ''Habitto'' @ [0x30A2, 0x30D7, 0x30EA],
          [0x30A2, 0x30D7, 0x30EA, 0x3092, 0x30C0, 0x30A6, 0x30F3, 0x30ED, 0x30FC, 0x30C9],
          [0x30B9, 0x30DE, 0x30DB, 0x3067, 0x7BA1, 0x7406]],
       page_priority = 3\<rparr>]"

abbreviation NEWLINE :: jschar where "NEWLINE \<equiv> 10"
abbreviation HASH :: jschar where "HASH \<equiv> 35"

text \<open>\<^verbatim>\<open>articleContent.split('\n\n')\<close>, the paragraph read so far as first argument.\<close>

fun split_paragraphs :: "jsstring \<Rightarrow> jsstring \<Rightarrow> jsstring list" where
  "split_paragraphs cur [] = [cur]"
| "split_paragraphs cur [x] = [cur @ [x]]"
| "split_paragraphs cur (x # y # s) =
     (if x = NEWLINE \<and> y = NEWLINE then cur # split_paragraphs [] s
      else split_paragraphs (cur @ [x]) (y # s))"

text \<open>
  \<^verbatim>\<open>Array.prototype.sort\<close> with a comparison function: a stable sort. \<open>compare a b\<close> is
  the number the comparison function returns; \<open>a\<close> goes before \<open>b\<close> when it is not
  positive.
\<close>

fun insert_by :: "('a \<Rightarrow> 'a \<Rightarrow> int) \<Rightarrow> 'a \<Rightarrow> 'a list \<Rightarrow> 'a list" where
  "insert_by compare x [] = [x]"
| "insert_by compare x (y # ys) =
     (if compare x y \<le> 0 then x # y # ys else y # insert_by compare x ys)"

definition js_sort :: "('a \<Rightarrow> 'a \<Rightarrow> int) \<Rightarrow> 'a list \<Rightarrow> 'a list" where
  "js_sort compare xs = foldr (insert_by compare) xs []"

text \<open>The first keyword of a page that the paragraph includes, if any.\<close>

fun first_keyword :: "jsstring \<Rightarrow> jsstring list \<Rightarrow> jsstring option" where
  "first_keyword paragraph [] = None"
| "first_keyword paragraph (keyword # rest) =
     (if js_includes paragraph keyword then Some keyword else first_keyword paragraph rest)"

subsection \<open>The edge function's \<^verbatim>\<open>suggestLinks\<close>\<close>

text \<open>First pass: for one paragraph, one candidate for every page with a keyword in it.\<close>

fun page_opportunities :: "nat \<Rightarrow> jsstring \<Rightarrow> HabittoPage list \<Rightarrow> Suggestion list" where
  "page_opportunities index paragraph [] = []"
| "page_opportunities index paragraph (page # pages) =
     (case first_keyword paragraph (page_keywords page) of
        None \<Rightarrow> page_opportunities index paragraph pages
      | Some keyword \<Rightarrow>
          \<lparr>paragraph_index = index, anchorText = keyword, link_url = page_url page,
           link_priority = page_priority page\<rparr>
          # page_opportunities index paragraph pages)"

fun all_opportunities :: "HabittoPage list \<Rightarrow> nat \<Rightarrow> jsstring list \<Rightarrow> Suggestion list" where
  "all_opportunities pages index [] = []"
| "all_opportunities pages index (paragraph # rest) =
     (if startsWith paragraph [HASH] \<or> length paragraph < 30
      then all_opportunities pages (Suc index) rest
      else if js_includes paragraph (str ''](http'')
      then all_opportunities pages (Suc index) rest
      else page_opportunities index paragraph pages @
           all_opportunities pages (Suc index) rest)"

definition compare_opportunities :: "Suggestion \<Rightarrow> Suggestion \<Rightarrow> int" where
  "compare_opportunities a b =
     (if link_priority a \<noteq> link_priority b
      then int (link_priority a) - int (link_priority b)
      else int (paragraph_index a) - int (paragraph_index b))"

definition sortedOpportunities :: "HabittoPage list \<Rightarrow> jsstring \<Rightarrow> Suggestion list" where
  "sortedOpportunities pages articleContent =
     js_sort compare_opportunities
       (all_opportunities pages 0 (split_paragraphs [] articleContent))"

text \<open>
  Second pass: the loop over the sorted candidates, with \<open>suggestions\<close> and \<open>usedUrls\<close>;
  \<^verbatim>\<open>break\<close> at five suggestions.
\<close>

definition hasNearbyLink :: "Suggestion list \<Rightarrow> Suggestion \<Rightarrow> bool" where
  "hasNearbyLink suggestions opp =
     list_ex (\<lambda>s. \<bar>int (paragraph_index s) - int (paragraph_index opp)\<bar> < 3) suggestions"

fun select_loop ::
  "Suggestion list \<Rightarrow> Suggestion list \<times> jsstring set \<Rightarrow> Suggestion list \<times> jsstring set" where
  "select_loop [] st = st"
| "select_loop (opp # rest) (suggestions, usedUrls) =
     (if link_url opp \<in> usedUrls then select_loop rest (suggestions, usedUrls)
      else if hasNearbyLink suggestions opp \<and> 2 \<le> length suggestions
      then select_loop rest (suggestions, usedUrls)
      else
        let suggestions' = suggestions @ [opp];
            usedUrls' = insert (link_url opp) usedUrls
        in if 5 \<le> length suggestions' then (suggestions', usedUrls')
           else select_loop rest (suggestions', usedUrls'))"

definition suggestLinks_with :: "HabittoPage list \<Rightarrow> jsstring \<Rightarrow> Suggestion list" where
  "suggestLinks_with pages articleContent =
     fst (select_loop (sortedOpportunities pages articleContent) ([], {}))"

definition suggestLinks :: "jsstring \<Rightarrow> Suggestion list" where
  "suggestLinks articleContent = suggestLinks_with HABITTO_PAGES articleContent"

subsection \<open>The library's \<^verbatim>\<open>suggestLinks\<close>\<close>

text \<open>
  \<^verbatim>\<open>page.anchors.find(a => paragraph.includes(a)) || keyword\<close>: an empty anchor is falsy.
\<close>

definition choose_anchor :: "jsstring \<Rightarrow> jsstring list \<Rightarrow> jsstring \<Rightarrow> jsstring" where
  "choose_anchor paragraph anchors keyword =
     (case find (js_includes paragraph) anchors of
        None \<Rightarrow> keyword
      | Some a \<Rightarrow> if a = [] then keyword else a)"

text \<open>
  The loop over the pages for one paragraph: a page is skipped when its URL is used or when
  it is a service page (priority 1) and the paragraph is in the first half; the loop ends
  once the paragraph has a suggestion.
\<close>

fun lib_pages_loop ::
  "nat \<Rightarrow> jsstring \<Rightarrow> bool \<Rightarrow> HabittoPage list \<Rightarrow> Suggestion list \<times> jsstring set
     \<Rightarrow> Suggestion list \<times> jsstring set" where
  "lib_pages_loop index paragraph isSecondHalf [] st = st"
| "lib_pages_loop index paragraph isSecondHalf (page # pages) (suggestions, usedUrls) =
     (if page_url page \<in> usedUrls
      then lib_pages_loop index paragraph isSecondHalf pages (suggestions, usedUrls)
      else if page_priority page = 1 \<and> \<not> isSecondHalf
      then lib_pages_loop index paragraph isSecondHalf pages (suggestions, usedUrls)
      else
        let (suggestions', usedUrls') =
              (case first_keyword paragraph (page_keywords page) of
                 None \<Rightarrow> (suggestions, usedUrls)
               | Some keyword \<Rightarrow>
                   (suggestions @
                      [\<lparr>paragraph_index = index,
                        anchorText = choose_anchor paragraph (page_anchors page) keyword,
                        link_url = page_url page, link_priority = page_priority page\<rparr>],
                    insert (page_url page) usedUrls))
        in if list_ex (\<lambda>s. paragraph_index s = index) suggestions'
           then (suggestions', usedUrls')
           else lib_pages_loop index paragraph isSecondHalf pages (suggestions', usedUrls'))"

fun lib_paragraphs_loop ::
  "HabittoPage list \<Rightarrow> nat \<Rightarrow> nat \<Rightarrow> jsstring list \<Rightarrow> Suggestion list \<times> jsstring set
     \<Rightarrow> Suggestion list \<times> jsstring set" where
  "lib_paragraphs_loop pages halfwayPoint index [] st = st"
| "lib_paragraphs_loop pages halfwayPoint index (paragraph # rest) st =
     (if startsWith paragraph [HASH] \<or> length paragraph < 50
      then lib_paragraphs_loop pages halfwayPoint (Suc index) rest st
      else if js_includes paragraph (str ''](http'')
      then lib_paragraphs_loop pages halfwayPoint (Suc index) rest st
      else lib_paragraphs_loop pages halfwayPoint (Suc index) rest
             (lib_pages_loop index paragraph (halfwayPoint \<le> index) pages st))"

definition compare_priority :: "Suggestion \<Rightarrow> Suggestion \<Rightarrow> int" where
  "compare_priority a b = int (link_priority a) - int (link_priority b)"

definition lib_suggestLinks_with :: "HabittoPage list \<Rightarrow> jsstring \<Rightarrow> Suggestion list" where
  "lib_suggestLinks_with pages articleContent =
     (let paragraphs = split_paragraphs [] articleContent;
          totalParagraphs = length paragraphs;
          halfwayPoint = totalParagraphs div 2;
          suggestions = fst (lib_paragraphs_loop pages halfwayPoint 0 paragraphs ([], {}))
      in slice 0 6 (js_sort compare_priority suggestions))"

definition lib_suggestLinks :: "jsstring \<Rightarrow> Suggestion list" where
  "lib_suggestLinks articleContent = lib_suggestLinks_with HABITTO_PAGES_lib articleContent"

text \<open>
  The order the candidates are to be taken in: by priority, and by paragraph position
  within a priority.
\<close>

definition priority_then_position :: "Suggestion \<Rightarrow> Suggestion \<Rightarrow> bool" where
  "priority_then_position a b =
     (link_priority a < link_priority b \<or>
      link_priority a = link_priority b \<and> paragraph_index a \<le> paragraph_index b)"

text \<open>
  From the third insertion on, every insertion is at least three paragraphs away from every
  insertion before it.
\<close>

definition spaced_after_two :: "Suggestion list \<Rightarrow> bool" where
  "spaced_after_two r =
     list_all (\<lambda>i. list_all (\<lambda>j. 3 \<le> \<bar>int (paragraph_index (r ! i)) - int (paragraph_index (r ! j))\<bar>)
                             [0..<i])
              [2..<length r]"

text \<open>
  A draft of three paragraphs of at least fifty code units: the first names Habitto, the
  second Visa, the third iOS.
\<close>

definition three_paragraph_draft :: jsstring where
  "three_paragraph_draft =
     str ''Habitto helps people save a little money every single month.'' @ [NEWLINE, NEWLINE] @
     str ''A Visa card gives cash back on every purchase you make here.'' @ [NEWLINE, NEWLINE] @
     str ''The iOS release lets you check the balance wherever you are.''"

subsection \<open>\<^verbatim>\<open>insertLinks\<close>\<close>

text \<open>
  \<^verbatim>\<open>s.replace(pattern, replacement)\<close> with a string pattern replaces the first occurrence.
  (A dollar sign in the replacement would be read as a pattern; the replacement here is
  built from catalogue anchors, keywords and URLs, which have none.)
\<close>

fun replace_first :: "jsstring \<Rightarrow> jsstring \<Rightarrow> jsstring \<Rightarrow> jsstring" where
  "replace_first [] pattern replacement = (if pattern = [] then replacement else [])"
| "replace_first (x # s) pattern replacement =
     (if startsWith (x # s) pattern then replacement @ drop (length pattern) (x # s)
      else x # replace_first s pattern replacement)"

definition compare_paragraph_desc :: "Suggestion \<Rightarrow> Suggestion \<Rightarrow> int" where
  "compare_paragraph_desc a b = int (paragraph_index b) - int (paragraph_index a)"

fun insert_loop :: "Suggestion list \<Rightarrow> jsstring list \<Rightarrow> jsstring list" where
  "insert_loop [] paragraphs = paragraphs"
| "insert_loop (l # rest) paragraphs =
     (if length paragraphs \<le> paragraph_index l then insert_loop rest paragraphs
      else
        let paragraph = paragraphs ! paragraph_index l
        in if paragraph = [] then insert_loop rest paragraphs
           else if js_includes paragraph ([RBRACKET, LPAREN] @ link_url l @ [RPAREN])
           then insert_loop rest paragraphs
           else insert_loop rest
                  (paragraphs[paragraph_index l :=
                     replace_first paragraph (anchorText l) (link (anchorText l) (link_url l))]))"

fun join_paragraphs :: "jsstring list \<Rightarrow> jsstring" where
  "join_paragraphs [] = []"
| "join_paragraphs [p] = p"
| "join_paragraphs (p # q # ps) = p @ [NEWLINE, NEWLINE] @ join_paragraphs (q # ps)"

definition insertLinks :: "jsstring \<Rightarrow> Suggestion list \<Rightarrow> jsstring" where
  "insertLinks content links =
     join_paragraphs
       (insert_loop (js_sort compare_paragraph_desc links) (split_paragraphs [] content))"

text \<open>Link placement as both Write stages apply it to a draft.\<close>

definition place_links :: "(jsstring \<Rightarrow> Suggestion list) \<Rightarrow> jsstring \<Rightarrow> jsstring" where
  "place_links suggest content =
     (let links = suggest content
      in if 0 < length links then insertLinks content links else content)"

section \<open>Batch/Job Store\<close>

datatype BatchStatus = BatchPending | Running | BatchCompleted | BatchFailed

datatype JobStatus = Pending | Researching | Analyzing | Writing | Completed | Failed

record Batch =
  total_keywords :: nat
  completed_keywords :: nat
  failed_keywords :: nat
  batch_status :: BatchStatus

text \<open>
  A row of \<^verbatim>\<open>simple_jobs\<close>. The timestamps \<^verbatim>\<open>started_at\<close> and \<^verbatim>\<open>completed_at\<close>, which
  are written and never read, are left out.
\<close>

record Job =
  job_id :: nat
  keyword :: jsstring
  job_status :: JobStatus
  job_error :: "jsstring option"
  research_raw :: "jsstring option"
  research_analyzed :: "jsstring option"
  neuronwriter_data :: "NeuronWriterAnalysis option"
  created_at :: nat

record Blog =
  blog_job_id :: nat
  blog_keyword :: jsstring
  blog_title :: jsstring
  blog_content :: jsstring
  blog_meta_description :: jsstring
  word_count :: nat
  internal_links :: "jsstring list"
  neuronwriter_score :: "int option"

record RetryContext =
  missingKeywords :: "jsstring list"
  previousScore :: int
  attempt :: nat

record SeoHints =
  hint_terms :: "jsstring list"
  hint_headings :: "jsstring list"
  hint_wordCountTarget :: nat

text \<open>The arguments of a call of the writing fetcher \<^verbatim>\<open>writeBlog\<close>.\<close>

record WriteRequest =
  write_keyword :: jsstring
  write_research :: jsstring
  write_seo :: "SeoHints option"
  write_retry :: "RetryContext option"

text \<open>
  The store holds one batch, its jobs and the blogs. Two more fields are not part of the
  database: \<open>status_log\<close> records every write of a job status (job, status before, status
  written), and \<open>write_log\<close> every call of the writing fetcher.
\<close>

record Store =
  batch :: Batch
  jobs :: "Job list"
  blogs :: "Blog list"
  status_log :: "(nat \<times> JobStatus \<times> JobStatus) list"
  write_log :: "WriteRequest list"

datatype error = Error jsstring

fun message :: "error \<Rightarrow> jsstring" where
  "message (Error m) = m"

text \<open>
  The calls of the store that can fail, by the place of the call. The environment of an
  invocation says which of them fail, with the store's message; a failed call changes
  nothing in the store and gives no data. What happens then is the caller's matter: the
  library turns the error of most calls into an exception; the two queries of the job
  selection do not look at the error, nor does the edge function's Write stage at its
  insert, its updates and its reads of the counters: they go on.
\<close>

datatype Site =
    UpdateBatchRunning | SelectInProgress | SelectPending | GetJobs | UpdateBatchFinal
  | MarkResearching | SaveResearch | FailResearch
  | SaveSeoData | SaveAnalysis | FailAnalysis
  | InsertBlog | MarkCompleted | ReadCompletedCount | WriteCompletedCount
  | FailWrite | ReadFailedCount | WriteFailedCount

record BlogResult =
  br_title :: jsstring
  br_content :: jsstring
  br_metaDescription :: jsstring

record ImportResult =
  import_success :: bool
  contentScore :: "int option"

text \<open>
  What one invocation meets outside the program: the fetchers (each answers or fails, a
  timeout being a failure), the provider's import for an official score, the errors of the
  store, and the Unicode tables. \<open>removePushyCTAs\<close>, a fixed table of regular-expression
  substitutions in the edge function that no property here depends on, is taken as a
  function on texts.
\<close>

record Env =
  research :: "jsstring \<Rightarrow> error + jsstring"
  analyzeResearch :: "jsstring \<Rightarrow> jsstring \<Rightarrow> error + jsstring"
  analyzeKeyword :: "jsstring \<Rightarrow> error + NeuronWriterAnalysis"
  writeBlog :: "WriteRequest \<Rightarrow> error + BlogResult"
  importToNeuronWriter :: "jsstring \<Rightarrow> jsstring \<Rightarrow> jsstring \<Rightarrow> jsstring \<Rightarrow> ImportResult"
  removePushyCTAs :: "jsstring \<Rightarrow> jsstring"
  db_error :: "Site \<Rightarrow> jsstring option"
  tables :: unicode

text \<open>
  \<^verbatim>\<open>createBatch\<close>, when both inserts succeed: one pending job per keyword, all inserted by
  one statement and so with one creation time. (The keyword is stored trimmed; no step
  looks into it, and the trimming is left out.)
\<close>

definition createBatch :: "jsstring list \<Rightarrow> Store" where
  "createBatch keywords =
     \<lparr>batch = \<lparr>total_keywords = length keywords, completed_keywords = 0,
                failed_keywords = 0, batch_status = BatchPending\<rparr>,
      jobs = map (\<lambda>i. \<lparr>job_id = i, keyword = keywords ! i, job_status = Pending,
                        job_error = None, research_raw = None, research_analyzed = None,
                        neuronwriter_data = None, created_at = 0\<rparr>)
                 [0..<length keywords],
      blogs = [], status_log = [], write_log = []\<rparr>"

definition updateBatchStatus :: "Env \<Rightarrow> Site \<Rightarrow> BatchStatus \<Rightarrow> Store \<Rightarrow> error + Store" where
  "updateBatchStatus env site st s =
     (case db_error env site of
        Some m \<Rightarrow> Inl (Error (str ''Failed to update batch status: '' @ m))
      | None \<Rightarrow> Inr (s\<lparr>batch := (batch s)\<lparr>batch_status := st\<rparr>\<rparr>))"

datatype Counter = completed_keywords_field | failed_keywords_field

fun read_counter :: "Counter \<Rightarrow> Batch \<Rightarrow> nat" where
  "read_counter completed_keywords_field b = completed_keywords b"
| "read_counter failed_keywords_field b = failed_keywords b"

fun write_counter :: "Counter \<Rightarrow> nat \<Rightarrow> Batch \<Rightarrow> Batch" where
  "write_counter completed_keywords_field v b = b\<lparr>completed_keywords := v\<rparr>"
| "write_counter failed_keywords_field v b = b\<lparr>failed_keywords := v\<rparr>"

fun field_name :: "Counter \<Rightarrow> jsstring" where
  "field_name completed_keywords_field = str ''completed_keywords''"
| "field_name failed_keywords_field = str ''failed_keywords''"

text \<open>\<^verbatim>\<open>incrementBatchProgress\<close>: read the counter, write it back plus one.\<close>

definition incrementBatchProgress ::
  "Env \<Rightarrow> Site \<Rightarrow> Site \<Rightarrow> Counter \<Rightarrow> Store \<Rightarrow> error + Store" where
  "incrementBatchProgress env read_site write_site field s =
     (case db_error env read_site of
        Some m \<Rightarrow> Inl (Error (str ''Failed to fetch batch: '' @ m))
      | None \<Rightarrow>
          let currentValue = read_counter field (batch s)
          in case db_error env write_site of
               Some m \<Rightarrow>
                 Inl (Error (str ''Failed to increment '' @ field_name field @ str '': '' @ m))
             | None \<Rightarrow> Inr (s\<lparr>batch := write_counter field (currentValue + 1) (batch s)\<rparr>))"

definition getJobsForBatch :: "Env \<Rightarrow> Store \<Rightarrow> error + Job list" where
  "getJobsForBatch env s =
     (case db_error env GetJobs of
        Some m \<Rightarrow> Inl (Error (str ''Failed to get jobs: '' @ m))
      | None \<Rightarrow> Inr (sort_key created_at (jobs s)))"

text \<open>
  An update of the rows of \<^verbatim>\<open>simple_jobs\<close> with the given id: of fields other than the
  status, and of the status (with the error text, when one is given).
\<close>

definition set_fields :: "nat \<Rightarrow> (Job \<Rightarrow> Job) \<Rightarrow> Store \<Rightarrow> Store" where
  "set_fields jid f s = s\<lparr>jobs := map (\<lambda>j. if job_id j = jid then f j else j) (jobs s)\<rparr>"

definition set_status :: "nat \<Rightarrow> JobStatus \<Rightarrow> Store \<Rightarrow> Store" where
  "set_status jid st s =
     s\<lparr>jobs := map (\<lambda>j. if job_id j = jid then j\<lparr>job_status := st\<rparr> else j) (jobs s),
       status_log := status_log s @
         map (\<lambda>j. (jid, job_status j, st)) (filter (\<lambda>j. job_id j = jid) (jobs s))\<rparr>"

definition updateJobStatus ::
  "Env \<Rightarrow> Site \<Rightarrow> nat \<Rightarrow> JobStatus \<Rightarrow> jsstring option \<Rightarrow> Store \<Rightarrow> error + Store" where
  "updateJobStatus env site jid st additional_error s =
     (case db_error env site of
        Some m \<Rightarrow> Inl (Error (str ''Failed to update job: '' @ m))
      | None \<Rightarrow>
          Inr (set_status jid st
                 (case additional_error of
                    None \<Rightarrow> s
                  | Some e \<Rightarrow> set_fields jid (\<lambda>j. j\<lparr>job_error := Some e\<rparr>) s)))"

definition setJobError :: "Env \<Rightarrow> Site \<Rightarrow> nat \<Rightarrow> jsstring \<Rightarrow> Store \<Rightarrow> error + Store" where
  "setJobError env site jid e s = updateJobStatus env site jid Failed (Some e) s"

text \<open>
  A select of one job by id, \<^verbatim>\<open>.single()\<close>: the row when there is exactly one.
\<close>

definition select_job :: "nat \<Rightarrow> Store \<Rightarrow> Job option" where
  "select_job jid s =
     (case filter (\<lambda>j. job_id j = jid) (jobs s) of [j] \<Rightarrow> Some j | _ \<Rightarrow> None)"

text \<open>
  The links \<^verbatim>\<open>saveBlog\<close> stores: the URLs of the matches of
  \<^verbatim>\<open>/\[([^\]]+)\]\((https?:\/\/[^)]+)\)/g\<close> that include \<^verbatim>\<open>habitto.com\<close>. \<open>match_http_link\<close>
  is a match at the start of the text: matched text and URL.
\<close>

definition match_http_link :: "jsstring \<Rightarrow> (jsstring \<times> jsstring) option" where
  "match_http_link s =
     (case s of
        [] \<Rightarrow> None
      | x # s1 \<Rightarrow>
          if x \<noteq> LBRACKET then None
          else
            let text = takeWhile (\<lambda>c. c \<noteq> RBRACKET) s1;
                s2 = dropWhile (\<lambda>c. c \<noteq> RBRACKET) s1;
                scheme = (if startsWith s2 (RBRACKET # LPAREN # str ''https://'')
                          then str ''https://'' else str ''http://'')
            in if text = [] then None
               else if \<not> startsWith s2 (RBRACKET # LPAREN # scheme) then None
               else
                 let s3 = drop (2 + length scheme) s2;
                     tail = takeWhile (\<lambda>c. c \<noteq> RPAREN) s3;
                     s4 = dropWhile (\<lambda>c. c \<noteq> RPAREN) s3
                 in if tail = [] \<or> s4 = [] then None
                    else Some ([LBRACKET] @ text @ [RBRACKET, LPAREN] @ scheme @ tail
                                 @ [RPAREN],
                               scheme @ tail))"

function extract_links :: "jsstring \<Rightarrow> jsstring list" where
  "extract_links [] = []"
| "extract_links (x # s) =
     (case match_http_link (x # s) of
        None \<Rightarrow> extract_links s
      | Some (match, url) \<Rightarrow>
          (if js_includes url (str ''habitto.com'') then [url] else []) @
          extract_links (drop (length match - 1) s))"
  by pat_completeness auto
termination
  by (relation "measure length") auto

definition saveBlog ::
  "Env \<Rightarrow> nat \<Rightarrow> jsstring \<Rightarrow> jsstring \<Rightarrow> jsstring \<Rightarrow> jsstring \<Rightarrow> int option \<Rightarrow> Store
     \<Rightarrow> error + Store" where
  "saveBlog env jobId kw title content metaDescription neuronwriterScore s =
     (let wordCount = length content;
          internalLinks = extract_links content
      in case db_error env InsertBlog of
           Some m \<Rightarrow> Inl (Error (str ''Failed to save blog: '' @ m))
         | None \<Rightarrow>
             Inr (s\<lparr>blogs := blogs s @
                    [\<lparr>blog_job_id = jobId, blog_keyword = kw, blog_title = title,
                      blog_content = content, blog_meta_description = metaDescription,
                      word_count = wordCount, internal_links = internalLinks,
                      neuronwriter_score = neuronwriterScore\<rparr>]\<rparr>))"

section \<open>Step Dispatcher and Stage Handlers (library)\<close>

datatype ResultStatus = processing | completed_result | no_work

datatype StepName = research_step | analyze_step | write_step | completed_step

text \<open>The result of a step; the display text \<^verbatim>\<open>message\<close> is left out.\<close>

record StepResult =
  result_status :: ResultStatus
  result_jobId :: "nat option"
  step :: "StepName option"
  nextStep :: "StepName option"
  batchComplete :: bool
  result_error :: "jsstring option"

definition MIN_ACCEPTABLE_SCORE :: int where
  "MIN_ACCEPTABLE_SCORE = 60"

text \<open>
  The two queries of \<^verbatim>\<open>getNextJobToProcess\<close>: the jobs of the batch with one of the given
  statuses, oldest first, at most one row. \<open>select_jobs\<close> is the \<^verbatim>\<open>data\<close> of the answer:
  the rows, or \<^verbatim>\<open>null\<close> when the query fails.
\<close>

definition query_jobs :: "JobStatus list \<Rightarrow> Store \<Rightarrow> Job list" where
  "query_jobs statuses s =
     take 1 (sort_key created_at (filter (\<lambda>j. job_status j \<in> set statuses) (jobs s)))"

definition select_jobs :: "Env \<Rightarrow> Site \<Rightarrow> JobStatus list \<Rightarrow> Store \<Rightarrow> Job list option" where
  "select_jobs env site statuses s =
     (case db_error env site of
        Some m \<Rightarrow> None
      | None \<Rightarrow> Some (query_jobs statuses s))"

text \<open>
  \<^verbatim>\<open>getNextJobToProcess\<close> takes only \<^verbatim>\<open>data\<close> from each answer and tests
  \<^verbatim>\<open>inProgressJobs && inProgressJobs.length > 0\<close>: a query that fails counts as one without
  rows.
\<close>

definition getNextJobToProcess :: "Env \<Rightarrow> Store \<Rightarrow> Job option" where
  "getNextJobToProcess env s =
     (let inProgressJobs = select_jobs env SelectInProgress [Researching, Analyzing, Writing] s
      in if inProgressJobs \<noteq> None \<and> 0 < length (the inProgressJobs)
         then Some (the inProgressJobs ! 0)
         else
           let pendingJobs = select_jobs env SelectPending [Pending] s
           in if pendingJobs \<noteq> None \<and> 0 < length (the pendingJobs)
              then Some (the pendingJobs ! 0)
              else None)"

text \<open>
  In the stage handlers a \<^verbatim>\<open>try\<close> block is a function that returns the exception thrown,
  if any, with the store as it is then; the \<^verbatim>\<open>catch\<close> block goes on from that store. A
  handler returns \<open>Inl\<close> for an exception that leaves it.
\<close>

definition research_try :: "Env \<Rightarrow> Job \<Rightarrow> Store \<Rightarrow> error option \<times> Store" where
  "research_try env job s =
     (case research env (keyword job) of
        Inl e \<Rightarrow> (Some e, s)
      | Inr rawResearch \<Rightarrow>
          (case db_error env SaveResearch of
             Some m \<Rightarrow> (Some (Error (str ''Failed to save research: '' @ m)), s)
           | None \<Rightarrow>
               (None, set_status (job_id job) Analyzing
                        (set_fields (job_id job) (\<lambda>j. j\<lparr>research_raw := Some rawResearch\<rparr>) s))))"

definition doResearchStep :: "Env \<Rightarrow> Job \<Rightarrow> Store \<Rightarrow> (error + StepResult) \<times> Store" where
  "doResearchStep env job s =
     (case updateJobStatus env MarkResearching (job_id job) Researching None s of
        Inl e \<Rightarrow> (Inl e, s)
      | Inr s1 \<Rightarrow>
          (case research_try env job s1 of
             (None, s2) \<Rightarrow>
               (Inr \<lparr>result_status = processing, result_jobId = Some (job_id job),
                     step = Some research_step, nextStep = Some analyze_step,
                     batchComplete = False, result_error = None\<rparr>, s2)
           | (Some e, s2) \<Rightarrow>
               (case setJobError env FailResearch (job_id job) (message e) s2 of
                  Inl e' \<Rightarrow> (Inl e', s2)
                | Inr s3 \<Rightarrow>
                    (Inr \<lparr>result_status = processing, result_jobId = Some (job_id job),
                          step = Some research_step, nextStep = None,
                          batchComplete = False, result_error = Some (message e)\<rparr>, s3))))"

text \<open>A value read from the store that JavaScript takes as false: null or the empty text.\<close>

definition falsy :: "jsstring option \<Rightarrow> bool" where
  "falsy v = (case v of None \<Rightarrow> True | Some t \<Rightarrow> t = [])"

definition analyze_try :: "Env \<Rightarrow> Job \<Rightarrow> bool \<Rightarrow> Store \<Rightarrow> error option \<times> Store" where
  "analyze_try env job useNeuronwriter s =
     (case select_job (job_id job) s of
        None \<Rightarrow> (Some (Error (str ''No research data found'')), s)
      | Some jobData \<Rightarrow>
          if falsy (research_raw jobData)
          then (Some (Error (str ''No research data found'')), s)
          else
            (case analyzeResearch env (keyword job) (the (research_raw jobData)) of
               Inl e \<Rightarrow> (Some e, s)
             | Inr analyzedResearch \<Rightarrow>
                 let s1 = (if useNeuronwriter
                           then (case analyzeKeyword env (keyword job) of
                                   Inl e \<Rightarrow> s
                                 | Inr neuronwriterData \<Rightarrow>
                                     (case db_error env SaveSeoData of
                                        Some m \<Rightarrow> s
                                      | None \<Rightarrow>
                                          set_fields (job_id job)
                                            (\<lambda>j. j\<lparr>neuronwriter_data := Some neuronwriterData\<rparr>) s))
                           else s)
                 in case db_error env SaveAnalysis of
                      Some m \<Rightarrow> (Some (Error (str ''Failed to save analysis: '' @ m)), s1)
                    | None \<Rightarrow>
                        (None, set_status (job_id job) Writing
                                 (set_fields (job_id job)
                                    (\<lambda>j. j\<lparr>research_analyzed := Some analyzedResearch\<rparr>) s1))))"

definition doAnalyzeStep ::
  "Env \<Rightarrow> Job \<Rightarrow> bool \<Rightarrow> Store \<Rightarrow> (error + StepResult) \<times> Store" where
  "doAnalyzeStep env job useNeuronwriter s =
     (case analyze_try env job useNeuronwriter s of
        (None, s1) \<Rightarrow>
          (Inr \<lparr>result_status = processing, result_jobId = Some (job_id job),
                step = Some analyze_step, nextStep = Some write_step,
                batchComplete = False, result_error = None\<rparr>, s1)
      | (Some e, s1) \<Rightarrow>
          (case setJobError env FailAnalysis (job_id job) (message e) s1 of
             Inl e' \<Rightarrow> (Inl e', s1)
           | Inr s2 \<Rightarrow>
               (Inr \<lparr>result_status = processing, result_jobId = Some (job_id job),
                     step = Some analyze_step, nextStep = None,
                     batchComplete = False, result_error = Some (message e)\<rparr>, s2)))"

text \<open>The SEO data as the Write stage hands it to the writing fetcher.\<close>

definition seo_hints :: "NeuronWriterAnalysis \<Rightarrow> SeoHints" where
  "seo_hints nd =
     \<lparr>hint_terms = recommendedTerms nd, hint_headings = competitorHeadings nd,
      hint_wordCountTarget = wordCountTarget nd\<rparr>"

definition first_request :: "Job \<Rightarrow> jsstring \<Rightarrow> NeuronWriterAnalysis option \<Rightarrow> WriteRequest" where
  "first_request job brief neuronwriterData =
     \<lparr>write_keyword = keyword job, write_research = brief,
      write_seo = map_option seo_hints neuronwriterData, write_retry = None\<rparr>"

definition retry_request ::
  "Job \<Rightarrow> jsstring \<Rightarrow> NeuronWriterAnalysis \<Rightarrow> NeuronWriterScore \<Rightarrow> WriteRequest" where
  "retry_request job brief nd scoreResult =
     \<lparr>write_keyword = keyword job, write_research = brief, write_seo = Some (seo_hints nd),
      write_retry = Some \<lparr>missingKeywords = missingTerms scoreResult,
                          previousScore = percentage scoreResult, attempt = 2\<rparr>\<rparr>"

text \<open>A call of the writing fetcher, recorded in \<open>write_log\<close>.\<close>

definition call_writeBlog :: "Env \<Rightarrow> WriteRequest \<Rightarrow> Store \<Rightarrow> (error + BlogResult) \<times> Store" where
  "call_writeBlog env request s = (writeBlog env request, s\<lparr>write_log := write_log s @ [request]\<rparr>)"

text \<open>
  The generation part of \<^verbatim>\<open>doWriteStep\<close>, the same statements in the library and in the
  edge function (each with its own \<^verbatim>\<open>suggestLinks\<close>): the draft, link placement, the score
  when there is SEO data, and one regeneration when the score is below the threshold. It
  gives the last result of the fetcher, the linked content and the score.
\<close>

definition generate ::
  "Env \<Rightarrow> (jsstring \<Rightarrow> Suggestion list) \<Rightarrow> Job \<Rightarrow> jsstring \<Rightarrow> NeuronWriterAnalysis option \<Rightarrow> Store
     \<Rightarrow> (error + BlogResult \<times> jsstring \<times> int option) \<times> Store" where
  "generate env suggest job brief neuronwriterData s =
     (case call_writeBlog env (first_request job brief neuronwriterData) s of
        (Inl e, s1) \<Rightarrow> (Inl e, s1)
      | (Inr blogResult, s1) \<Rightarrow>
          let content = place_links suggest (br_content blogResult)
          in case neuronwriterData of
               None \<Rightarrow> (Inr (blogResult, content, None), s1)
             | Some nd \<Rightarrow>
                 let scoreResult = calculateScore (tables env) content nd;
                     score1 = percentage scoreResult
                 in if score1 < MIN_ACCEPTABLE_SCORE
                    then
                      (case call_writeBlog env (retry_request job brief nd scoreResult) s1 of
                         (Inl e, s2) \<Rightarrow> (Inl e, s2)
                       | (Inr blogResult2, s2) \<Rightarrow>
                           let content2 = place_links suggest (br_content blogResult2);
                               newScoreResult = calculateScore (tables env) content2 nd
                           in (Inr (blogResult2, content2, Some (percentage newScoreResult)), s2))
                    else (Inr (blogResult, content, Some score1), s1))"

definition write_try :: "Env \<Rightarrow> Job \<Rightarrow> Store \<Rightarrow> error option \<times> Store" where
  "write_try env job s =
     (case select_job (job_id job) s of
        None \<Rightarrow> (Some (Error (str ''No analyzed research found'')), s)
      | Some jobData \<Rightarrow>
          if falsy (research_analyzed jobData)
          then (Some (Error (str ''No analyzed research found'')), s)
          else
            (case generate env lib_suggestLinks job (the (research_analyzed jobData))
                    (neuronwriter_data jobData) s of
               (Inl e, s1) \<Rightarrow> (Some e, s1)
             | (Inr (blogResult, content, score'), s1) \<Rightarrow>
                 (case saveBlog env (job_id job) (keyword job) (br_title blogResult) content
                         (br_metaDescription blogResult) score' s1 of
                    Inl e \<Rightarrow> (Some e, s1)
                  | Inr s2 \<Rightarrow>
                      (case updateJobStatus env MarkCompleted (job_id job) Completed None s2 of
                         Inl e \<Rightarrow> (Some e, s2)
                       | Inr s3 \<Rightarrow>
                           (case incrementBatchProgress env ReadCompletedCount
                                   WriteCompletedCount completed_keywords_field s3 of
                              Inl e \<Rightarrow> (Some e, s3)
                            | Inr s4 \<Rightarrow> (None, s4))))))"

definition doWriteStep :: "Env \<Rightarrow> Job \<Rightarrow> Store \<Rightarrow> (error + StepResult) \<times> Store" where
  "doWriteStep env job s =
     (case write_try env job s of
        (None, s1) \<Rightarrow>
          (Inr \<lparr>result_status = processing, result_jobId = Some (job_id job),
                step = Some write_step, nextStep = Some completed_step,
                batchComplete = False, result_error = None\<rparr>, s1)
      | (Some e, s1) \<Rightarrow>
          (case setJobError env FailWrite (job_id job) (message e) s1 of
             Inl e' \<Rightarrow> (Inl e', s1)
           | Inr s2 \<Rightarrow>
               (case incrementBatchProgress env ReadFailedCount WriteFailedCount
                       failed_keywords_field s2 of
                  Inl e' \<Rightarrow> (Inl e', s2)
                | Inr s3 \<Rightarrow>
                    (Inr \<lparr>result_status = processing, result_jobId = Some (job_id job),
                          step = Some write_step, nextStep = None,
                          batchComplete = False, result_error = Some (message e)\<rparr>, s3))))"

text \<open>The soft result of the dispatcher's own \<^verbatim>\<open>catch\<close>.\<close>

definition will_retry :: "error \<Rightarrow> StepResult" where
  "will_retry e =
     \<lparr>result_status = processing, result_jobId = None, step = None, nextStep = None,
      batchComplete = False, result_error = Some (message e)\<rparr>"

definition caught :: "(error + StepResult) \<times> Store \<Rightarrow> StepResult \<times> Store" where
  "caught r = (case r of (Inl e, s) \<Rightarrow> (will_retry e, s) | (Inr res, s) \<Rightarrow> (res, s))"

definition finish_batch :: "Env \<Rightarrow> Store \<Rightarrow> (error + StepResult) \<times> Store" where
  "finish_batch env s =
     (case getJobsForBatch env s of
        Inl e \<Rightarrow> (Inl e, s)
      | Inr js \<Rightarrow>
          let completed = length (filter (\<lambda>j. job_status j = Completed) js);
              failed = length (filter (\<lambda>j. job_status j = Failed) js);
              total = length js
          in if completed + failed = total
             then (case updateBatchStatus env UpdateBatchFinal
                          (if failed = total then BatchFailed else BatchCompleted) s of
                     Inl e \<Rightarrow> (Inl e, s)
                   | Inr s1 \<Rightarrow>
                       (Inr \<lparr>result_status = completed_result, result_jobId = None,
                             step = None, nextStep = None, batchComplete = True,
                             result_error = None\<rparr>, s1))
             else (Inr \<lparr>result_status = no_work, result_jobId = None, step = None,
                         nextStep = None, batchComplete = False, result_error = None\<rparr>, s))"

definition processOneStep :: "Env \<Rightarrow> bool \<Rightarrow> Store \<Rightarrow> StepResult \<times> Store" where
  "processOneStep env useNeuronwriter s =
     caught
       (case updateBatchStatus env UpdateBatchRunning Running s of
          Inl e \<Rightarrow> (Inl e, s)
        | Inr s1 \<Rightarrow>
            (case getNextJobToProcess env s1 of
               None \<Rightarrow> finish_batch env s1
             | Some job \<Rightarrow>
                 (case job_status job of
                    Pending \<Rightarrow> doResearchStep env job s1
                  | Researching \<Rightarrow> doResearchStep env job s1
                  | Analyzing \<Rightarrow> doAnalyzeStep env job useNeuronwriter s1
                  | Writing \<Rightarrow> doWriteStep env job s1
                  | _ \<Rightarrow>
                      (Inr \<lparr>result_status = no_work, result_jobId = Some (job_id job),
                            step = None, nextStep = None, batchComplete = False,
                            result_error = None\<rparr>, s1))))"

text \<open>Invocations one after the other, each with its environment.\<close>

fun run :: "bool \<Rightarrow> Env list \<Rightarrow> Store \<Rightarrow> Store" where
  "run useNeuronwriter [] s = s"
| "run useNeuronwriter (env # envs) s =
     run useNeuronwriter envs (snd (processOneStep env useNeuronwriter s))"

section \<open>The edge function\<close>

text \<open>
  The handler selects the job with the same two queries, written out in the handler, and
  like the library takes only \<^verbatim>\<open>data\<close> from each answer.
\<close>

definition handler_select_job :: "Env \<Rightarrow> Store \<Rightarrow> Job option" where
  "handler_select_job env s =
     (let inProgressJobs = select_jobs env SelectInProgress [Researching, Analyzing, Writing] s
      in if inProgressJobs \<noteq> None \<and> 0 < length (the inProgressJobs)
         then Some (the inProgressJobs ! 0)
         else
           let pendingJobs = select_jobs env SelectPending [Pending] s
           in if pendingJobs \<noteq> None \<and> 0 < length (the pendingJobs)
              then Some (the pendingJobs ! 0)
              else None)"

text \<open>
  \<^verbatim>\<open>postProcessContent\<close>: link deduplication, then the softening of promotional phrasing;
  the validation of brand keywords only logs.
\<close>

definition postProcessContent :: "Env \<Rightarrow> jsstring \<Rightarrow> jsstring" where
  "postProcessContent env content = removePushyCTAs env (dedupeInternalLinks content)"

text \<open>
  A store call whose error the caller does not look at: when it fails nothing is written,
  and the caller goes on as after a call that succeeded.
\<close>

definition ignoring_error :: "Env \<Rightarrow> Site \<Rightarrow> (Store \<Rightarrow> Store) \<Rightarrow> Store \<Rightarrow> Store" where
  "ignoring_error env site write s =
     (case db_error env site of Some m \<Rightarrow> s | None \<Rightarrow> write s)"

text \<open>
  The edge function's increment of a counter of the batch: the read gives \<^verbatim>\<open>batch\<close>, and
  \<^verbatim>\<open>if (batch)\<close> guards the write, whose error is not looked at.
\<close>

definition edge_increment :: "Env \<Rightarrow> Site \<Rightarrow> Site \<Rightarrow> Counter \<Rightarrow> Store \<Rightarrow> Store" where
  "edge_increment env read_site write_site field s =
     (case db_error env read_site of
        Some m \<Rightarrow> s
      | None \<Rightarrow>
          ignoring_error env write_site
            (\<lambda>s. s\<lparr>batch := write_counter field (read_counter field (batch s) + 1) (batch s)\<rparr>)
            s)"

text \<open>
  The edge function's \<^verbatim>\<open>doWriteStep\<close>. It does not look at the errors of its store calls,
  so only the missing brief and the writing fetcher can throw. After post-processing it
  imports the text to the provider when the analysis has a query id, and stores the
  provider's score when the import gives one, the computed score otherwise.
\<close>

definition edge_write_try :: "Env \<Rightarrow> Job \<Rightarrow> Store \<Rightarrow> error option \<times> Store" where
  "edge_write_try env job s =
     (case select_job (job_id job) s of
        None \<Rightarrow> (Some (Error (str ''No analyzed research found'')), s)
      | Some jobData \<Rightarrow>
          if falsy (research_analyzed jobData)
          then (Some (Error (str ''No analyzed research found'')), s)
          else
            (case generate env suggestLinks job (the (research_analyzed jobData))
                    (neuronwriter_data jobData) s of
               (Inl e, s1) \<Rightarrow> (Some e, s1)
             | (Inr (blogResult, linked, score'), s1) \<Rightarrow>
                 let content = postProcessContent env linked;
                     internalLinks = extract_links content;
                     wordCount = length content;
                     neuronwriterRealScore =
                       (case neuronwriter_data jobData of
                          None \<Rightarrow> None
                        | Some nd \<Rightarrow>
                            if falsy (queryId nd) then None
                            else
                              let importResult =
                                    importToNeuronWriter env (the (queryId nd))
                                      (br_title blogResult) (br_metaDescription blogResult)
                                      content
                              in if import_success importResult then contentScore importResult
                                 else None);
                     finalScore = (case neuronwriterRealScore of
                                     Some v \<Rightarrow> Some v | None \<Rightarrow> score');
                     s2 = ignoring_error env InsertBlog
                            (\<lambda>s. s\<lparr>blogs := blogs s @
                               [\<lparr>blog_job_id = job_id job, blog_keyword = keyword job,
                                 blog_title = br_title blogResult, blog_content = content,
                                 blog_meta_description = br_metaDescription blogResult,
                                 word_count = wordCount, internal_links = internalLinks,
                                 neuronwriter_score = finalScore\<rparr>]\<rparr>)
                            s1;
                     s3 = ignoring_error env MarkCompleted (set_status (job_id job) Completed) s2;
                     s4 = edge_increment env ReadCompletedCount WriteCompletedCount
                            completed_keywords_field s3
                 in (None, s4)))"

definition edge_doWriteStep :: "Env \<Rightarrow> Job \<Rightarrow> Store \<Rightarrow> StepResult \<times> Store" where
  "edge_doWriteStep env job s =
     (case edge_write_try env job s of
        (None, s1) \<Rightarrow>
          (\<lparr>result_status = processing, result_jobId = Some (job_id job),
            step = Some write_step, nextStep = Some completed_step,
            batchComplete = False, result_error = None\<rparr>, s1)
      | (Some e, s1) \<Rightarrow>
          let s2 = ignoring_error env FailWrite
                     (\<lambda>s. set_status (job_id job) Failed
                            (set_fields (job_id job) (\<lambda>j. j\<lparr>job_error := Some (message e)\<rparr>) s))
                     s1;
              s3 = edge_increment env ReadFailedCount WriteFailedCount failed_keywords_field s2
          in (\<lparr>result_status = processing, result_jobId = Some (job_id job),
               step = Some write_step, nextStep = None,
               batchComplete = False, result_error = Some (message e)\<rparr>, s3))"

section \<open>Terms of the pipeline properties\<close>

definition terminal :: "JobStatus \<Rightarrow> bool" where
  "terminal st = (st = Completed \<or> st = Failed)"

definition in_progress :: "JobStatus \<Rightarrow> bool" where
  "in_progress st = (st = Researching \<or> st = Analyzing \<or> st = Writing)"

text \<open>
  Counts of rows of the job table: the rows with a given id, the terminal ones among them,
  and the terminal rows with another id.
\<close>

definition rows_of :: "nat \<Rightarrow> Store \<Rightarrow> nat" where
  "rows_of jid s = length (filter (\<lambda>j. job_id j = jid) (jobs s))"

definition terminal_of :: "nat \<Rightarrow> Store \<Rightarrow> nat" where
  "terminal_of jid s =
     length (filter (\<lambda>j. job_id j = jid \<and> terminal (job_status j)) (jobs s))"

definition terminal_others :: "nat \<Rightarrow> Store \<Rightarrow> nat" where
  "terminal_others jid s =
     length (filter (\<lambda>j. job_id j \<noteq> jid \<and> terminal (job_status j)) (jobs s))"

definition terminal_jobs :: "Store \<Rightarrow> nat" where
  "terminal_jobs s = length (filter (\<lambda>j. terminal (job_status j)) (jobs s))"

definition counted :: "Store \<Rightarrow> nat" where
  "counted s = completed_keywords (batch s) + failed_keywords (batch s)"

text \<open>
  What holds of the store between invocations: the ids of the jobs are distinct, the total
  is the number of jobs, the two counters together do not exceed the number of terminal
  jobs, and a terminal batch status has all jobs terminal, \<open>failed\<close> when all of them
  failed and \<open>completed\<close> otherwise.
\<close>

definition store_inv :: "Store \<Rightarrow> bool" where
  "store_inv s =
     (distinct (map job_id (jobs s)) \<and>
      total_keywords (batch s) = length (jobs s) \<and>
      counted s \<le> terminal_jobs s \<and>
      (batch_status (batch s) = BatchFailed \<longrightarrow>
         (\<forall>j\<in>set (jobs s). job_status j = Failed)) \<and>
      (batch_status (batch s) = BatchCompleted \<longrightarrow>
         (\<forall>j\<in>set (jobs s). terminal (job_status j)) \<and>
         \<not> (\<forall>j\<in>set (jobs s). job_status j = Failed)))"

text \<open>
  What a stage handler leaves as it is when it works on the job with id \<open>jid\<close>: the ids
  of the rows, the terminal rows with another id, the total and the status of the batch.
\<close>

definition same_frame :: "nat \<Rightarrow> Store \<Rightarrow> Store \<Rightarrow> bool" where
  "same_frame jid s s' =
     (map job_id (jobs s') = map job_id (jobs s) \<and>
      terminal_others jid s' = terminal_others jid s \<and>
      total_keywords (batch s') = total_keywords (batch s) \<and>
      batch_status (batch s') = batch_status (batch s))"

text \<open>
  The counters after a handler: as before, or one more with the job in a terminal status.
\<close>

definition counted_with_job :: "nat \<Rightarrow> Store \<Rightarrow> Store \<Rightarrow> bool" where
  "counted_with_job jid s s' =
     (counted s' = counted s \<or>
      counted s' = counted s + 1 \<and> terminal_of jid s' = rows_of jid s')"

text \<open>
  The draft a Write stage makes of an answer of the writing fetcher (the answer's content
  with the links placed), the score it computes for it, and, in the edge function, the
  score the provider gives on import of the post-processed draft: none without a query id
  and none when the import fails.
\<close>

definition linked_draft :: "(jsstring \<Rightarrow> Suggestion list) \<Rightarrow> BlogResult \<Rightarrow> jsstring" where
  "linked_draft suggest answer = place_links suggest (br_content answer)"

definition draft_score ::
  "Env \<Rightarrow> (jsstring \<Rightarrow> Suggestion list) \<Rightarrow> NeuronWriterAnalysis \<Rightarrow> BlogResult
     \<Rightarrow> NeuronWriterScore" where
  "draft_score env suggest nd answer =
     calculateScore (tables env) (linked_draft suggest answer) nd"

definition official_score :: "Env \<Rightarrow> NeuronWriterAnalysis \<Rightarrow> BlogResult \<Rightarrow> int option" where
  "official_score env nd answer =
     (if falsy (queryId nd) then None
      else
        let importResult =
              importToNeuronWriter env (the (queryId nd)) (br_title answer)
                (br_metaDescription answer)
                (postProcessContent env (linked_draft suggestLinks answer))
        in if import_success importResult then contentScore importResult else None)"

text \<open>
  An environment in which every fetcher answers and the store has no error, and one in
  which the write of the completed counter fails.
\<close>

definition quiet_env :: Env where
  "quiet_env =
     \<lparr>research = (\<lambda>kw. Inr (str ''findings'')),
      analyzeResearch = (\<lambda>kw raw. Inr (str ''brief'')),
      analyzeKeyword = (\<lambda>kw. Inr one_term_analysis),
      writeBlog = (\<lambda>request. Inr \<lparr>br_title = str ''title'', br_content = str ''text'',
                                    br_metaDescription = str ''meta''\<rparr>),
      importToNeuronWriter = (\<lambda>q t d c. \<lparr>import_success = False, contentScore = None\<rparr>),
      removePushyCTAs = (\<lambda>c. c),
      db_error = (\<lambda>site. None),
      tables = ascii_tables\<rparr>"

definition counter_fails_env :: Env where
  "counter_fails_env =
     quiet_env\<lparr>db_error :=
       (\<lambda>site. if site = WriteCompletedCount then Some (str ''timeout'') else None)\<rparr>"

text \<open>An environment in which the query for the jobs in progress fails.\<close>

definition first_query_fails_env :: Env where
  "first_query_fails_env =
     quiet_env\<lparr>db_error :=
       (\<lambda>site. if site = SelectInProgress then Some (str ''timeout'') else None)\<rparr>"

text \<open>A batch of one job that has reached the Write stage, without SEO data.\<close>

definition writing_store :: Store where
  "writing_store =
     \<lparr>batch = \<lparr>total_keywords = 1, completed_keywords = 0, failed_keywords = 0,
                batch_status = Running\<rparr>,
      jobs = [\<lparr>job_id = 0, keyword = str ''kw'', job_status = Writing, job_error = None,
               research_raw = Some (str ''findings''),
               research_analyzed = Some (str ''brief''), neuronwriter_data = None,
               created_at = 0\<rparr>],
      blogs = [], status_log = [], write_log = []\<rparr>"

text \<open>
  A batch of three jobs: the first and the third pending, the second, created later than
  the first, left in \<open>analyzing\<close>.
\<close>

definition resumed_store :: Store where
  "resumed_store =
     \<lparr>batch = \<lparr>total_keywords = 3, completed_keywords = 0, failed_keywords = 0,
                batch_status = Running\<rparr>,
      jobs = [\<lparr>job_id = 0, keyword = str ''a'', job_status = Pending, job_error = None,
               research_raw = None, research_analyzed = None, neuronwriter_data = None,
               created_at = 1\<rparr>,
              \<lparr>job_id = 1, keyword = str ''b'', job_status = Analyzing, job_error = None,
               research_raw = Some (str ''findings''), research_analyzed = None,
               neuronwriter_data = None, created_at = 2\<rparr>,
              \<lparr>job_id = 2, keyword = str ''c'', job_status = Pending, job_error = None,
               research_raw = None, research_analyzed = None, neuronwriter_data = None,
               created_at = 3\<rparr>],
      blogs = [], status_log = [], write_log = []\<rparr>"

text \<open>
  A job in the Write stage with SEO data of three terms and a provider query id, and an
  environment whose writing fetcher answers the first request with a text without any term
  and the retry with a text that has one term once, and whose provider scores the import
  88.
\<close>

definition seo_analysis :: NeuronWriterAnalysis where
  "seo_analysis = \<lparr>queryId = Some (str ''q1''),
     recommendedTerms = [str ''seo'', str ''bank'', str ''rate''],
     competitorHeadings = [], wordCountTarget = 0\<rparr>"

definition seo_job :: Job where
  "seo_job =
     \<lparr>job_id = 0, keyword = str ''kw'', job_status = Writing, job_error = None,
      research_raw = Some (str ''findings''), research_analyzed = Some (str ''brief''),
      neuronwriter_data = Some seo_analysis, created_at = 0\<rparr>"

definition seo_writing_store :: Store where
  "seo_writing_store =
     \<lparr>batch = \<lparr>total_keywords = 1, completed_keywords = 0, failed_keywords = 0,
                batch_status = Running\<rparr>,
      jobs = [seo_job], blogs = [], status_log = [], write_log = []\<rparr>"

text \<open>The two answers of the writing fetcher of \<open>retry_env\<close>.\<close>

definition plain_answer :: BlogResult where
  "plain_answer =
     \<lparr>br_title = str ''title'', br_content = str ''text'', br_metaDescription = str ''meta''\<rparr>"

definition seo_answer :: BlogResult where
  "seo_answer =
     \<lparr>br_title = str ''title'', br_content = str ''seo text'',
      br_metaDescription = str ''meta''\<rparr>"

definition retry_env :: Env where
  "retry_env =
     quiet_env\<lparr>writeBlog :=
         (\<lambda>request. Inr (case write_retry request of
                               None \<Rightarrow> plain_answer
                             | Some r \<Rightarrow> seo_answer)),
       importToNeuronWriter :=
         (\<lambda>q t d c. \<lparr>import_success = True, contentScore = Some 88\<rparr>)\<rparr>"

section \<open>Properties of the SEO scorer\<close>

lemma str_simps: "str [] = []" "str (c # cs) = of_char c # str cs"
  by (simp_all add: str_def)

lemma critical_loop_eq:
  "critical_loop U cl ts (s, m) =
     (s + (\<Sum>t\<leftarrow>ts. critical_points (countOccurrences U cl (toLowerCase U t))),
      m @ filter (\<lambda>t. countOccurrences U cl (toLowerCase U t) < 3) ts)"
  by (induction ts arbitrary: s m) (auto simp: critical_points_def Let_def)

lemma important_loop_eq:
  "important_loop U cl ts (s, m) =
     (s + (\<Sum>t\<leftarrow>ts. important_points (countOccurrences U cl (toLowerCase U t))),
      m @ filter (\<lambda>t. countOccurrences U cl (toLowerCase U t) = 0) ts)"
  by (induction ts arbitrary: s m) (auto simp: important_points_def Let_def min_def)

lemma supporting_loop_eq:
  "supporting_loop U cl ts s =
     s + (\<Sum>t\<leftarrow>ts. supporting_points (js_includes cl (toLowerCase U t)))"
  by (induction ts arbitrary: s) (auto simp: supporting_points_def)

lemma percentage_calculateScore:
  "percentage (calculateScore U content analysis) =
     spec_percentage U content (recommendedTerms analysis)"
  by (simp add: calculateScore_def spec_percentage_def critical_share_def important_share_def
      supporting_share_def tier_share_def critical_score_def important_score_def
      supporting_score_def critical_tier_def important_tier_def supporting_tier_def
      occurrences_def present_def slice_def slice_from_def Let_def
      critical_loop_eq important_loop_eq supporting_loop_eq mult.commute)

lemma missingTerms_calculateScore:
  "missingTerms (calculateScore U content analysis) =
     filter (\<lambda>t. occurrences U content t < 3) (critical_tier (recommendedTerms analysis)) @
     take 5 (filter (\<lambda>t. occurrences U content t = 0)
               (important_tier (recommendedTerms analysis)))"
  by (simp add: calculateScore_def critical_tier_def important_tier_def
      occurrences_def slice_def slice_from_def Let_def
      critical_loop_eq important_loop_eq)

lemma half_point_tiers:
  "map (occurrences ascii_tables half_point_content) (critical_tier half_point_terms) =
     [1, 0, 0, 0, 0, 0, 0, 0, 0, 0]"
  "map (occurrences ascii_tables half_point_content) (important_tier half_point_terms) =
     [0, 0, 0, 0, 0, 0, 0, 0, 0, 0, 0, 0, 0, 0, 0]"
  "map (present ascii_tables half_point_content) (supporting_tier half_point_terms) =
     [True, True, True, True, True, True, True, True, True, True, True, True, True,
      False, False, False, False, False, False, False, False, False, False, False]"
  by (simp_all add: occurrences_def countOccurrences_def present_def half_point_content_def
      half_point_terms_def critical_tier_def important_tier_def supporting_tier_def
      ascii_tables_def ascii_lower_def ascii_upper_def str_simps)

lemma half_point_scores:
  "critical_score ascii_tables half_point_content half_point_terms = 1"
  "important_score ascii_tables half_point_content half_point_terms = 0"
  "supporting_score ascii_tables half_point_content half_point_terms = 13"
  "length (critical_tier half_point_terms) = 10"
  "length (important_tier half_point_terms) = 15"
  "length (supporting_tier half_point_terms) = 24"
proof -
  have "critical_score ascii_tables half_point_content half_point_terms =
      sum_list (map critical_points
        (map (occurrences ascii_tables half_point_content) (critical_tier half_point_terms)))"
    by (simp add: critical_score_def comp_def)
  then show "critical_score ascii_tables half_point_content half_point_terms = 1"
    by (simp only: half_point_tiers) (simp add: critical_points_def)
  have "important_score ascii_tables half_point_content half_point_terms =
      sum_list (map important_points
        (map (occurrences ascii_tables half_point_content) (important_tier half_point_terms)))"
    by (simp add: important_score_def comp_def)
  then show "important_score ascii_tables half_point_content half_point_terms = 0"
    by (simp only: half_point_tiers) (simp add: important_points_def)
  have "supporting_score ascii_tables half_point_content half_point_terms =
      sum_list (map supporting_points
        (map (present ascii_tables half_point_content) (supporting_tier half_point_terms)))"
    by (simp add: supporting_score_def comp_def)
  then show "supporting_score ascii_tables half_point_content half_point_terms = 13"
    by (simp only: half_point_tiers) (simp add: supporting_points_def)
  show "length (critical_tier half_point_terms) = 10"
    "length (important_tier half_point_terms) = 15"
    "length (supporting_tier half_point_terms) = 24"
    by (simp_all add: half_point_terms_def critical_tier_def important_tier_def
        supporting_tier_def)
qed

lemma half_point_arithmetic:
  "Math_round (js_add (js_add (js_mul (js_div 1 30) 50) (js_mul (js_div 0 30) 30))
                 (js_mul (js_div 13 24) 20)) = 12"
  "Math_round (1 / 30 * 50 + 0 / 30 * 30 + 13 / 24 * 20) = 13"
  by code_simp+

text \<open>
  C1, as stated, fails where the sum the claim writes lies on a half and the sum of the
  code's floating-point numbers lies just below it. With 1 of 30 critical points, 0 of 30
  important points and 13 of 24 supporting points the sum is 5/3 + 0 + 65/6 = 12.5, which
  rounds to 13; the code returns 12.
\<close>

theorem half_point_sum_is_rounded_down:
  "critical_score ascii_tables half_point_content half_point_terms = 1 \<and>
   important_score ascii_tables half_point_content half_point_terms = 0 \<and>
   supporting_score ascii_tables half_point_content half_point_terms = 13 \<and>
   exact_percentage ascii_tables half_point_content (recommendedTerms half_point_analysis) = 13 \<and>
   percentage (calculateScore ascii_tables half_point_content half_point_analysis) = 12"
  using half_point_arithmetic
  by (simp add: percentage_calculateScore spec_percentage_def exact_percentage_def
      critical_share_def important_share_def supporting_share_def tier_share_def
      exact_share_def half_point_scores half_point_analysis_def)

text \<open>
  C1, amended. For every content and every analysis, the first 10 terms are critical
  (3 points from three occurrences on, 1 or 2 points for one or two occurrences), the next
  15 important (2 points from two occurrences on), the rest supporting (1 point for
  presence), and a tier without terms contributes its full weight. The percentage is
  \<^verbatim>\<open>Math.round\<close> of the sum of the three tier shares as the code computes it with
  JavaScript numbers: each share is the quotient achieved / maximum, rounded to a double,
  times the weight 50, 30 or 20, rounded to a double, and the shares are added critical
  first, each sum rounded to a double.
\<close>

theorem calculateScore_percentage_by_tiers:
  "percentage (calculateScore U content analysis) =
     Math_round
       (js_add
          (js_add
             (tier_share (\<Sum>t\<leftarrow>take 10 (recommendedTerms analysis).
                            critical_points (occurrences U content t))
                (3 * length (take 10 (recommendedTerms analysis))) 50)
             (tier_share (\<Sum>t\<leftarrow>take 15 (drop 10 (recommendedTerms analysis)).
                            important_points (occurrences U content t))
                (2 * length (take 15 (drop 10 (recommendedTerms analysis)))) 30))
          (tier_share (\<Sum>t\<leftarrow>drop 25 (recommendedTerms analysis).
                         supporting_points (present U content t))
             (length (drop 25 (recommendedTerms analysis))) 20))"
  unfolding percentage_calculateScore
  by (simp only: spec_percentage_def critical_share_def important_share_def
      supporting_share_def critical_score_def important_score_def supporting_score_def
      critical_tier_def important_tier_def supporting_tier_def)

lemma fl_values: "fl 0 = 0" "fl 1 = 1" "fl 50 = 50" "fl 70 = 70"
  by code_simp+

lemma Math_round_values: "Math_round 50 = 50" "Math_round 70 = 70"
  by code_simp+

lemma sum_list_const: "\<forall>x\<in>set xs. f x = (c::nat) \<Longrightarrow> (\<Sum>x\<leftarrow>xs. f x) = c * length xs"
  by (induction xs) auto

lemma critical_only_shares:
  assumes len: "length terms = 25 + k"
    and crit: "\<forall>t\<in>set (critical_tier terms). 3 \<le> occurrences U content t"
    and imp: "\<forall>t\<in>set (important_tier terms). occurrences U content t = 0"
    and sup: "\<forall>t\<in>set (supporting_tier terms). \<not> present U content t"
  shows "critical_share U content terms = 50"
    and "important_share U content terms = 0"
    and "supporting_share U content terms = (if k = 0 then 20 else 0)"
    and "spec_percentage U content terms = (if k = 0 then 70 else 50)"
proof -
  have lc: "length (critical_tier terms) = 10" and li: "length (important_tier terms) = 15"
    and ls: "length (supporting_tier terms) = k"
    using len by (simp_all add: critical_tier_def important_tier_def supporting_tier_def)
  have "critical_score U content terms = 3 * length (critical_tier terms)"
    unfolding critical_score_def
    by (rule sum_list_const) (use crit in \<open>simp add: critical_points_def\<close>)
  then have cs: "critical_score U content terms = 30" using lc by simp
  have "important_score U content terms = 0 * length (important_tier terms)"
    unfolding important_score_def
    by (rule sum_list_const) (use imp in \<open>simp add: important_points_def\<close>)
  then have iz: "important_score U content terms = 0" by simp
  have "supporting_score U content terms = 0 * length (supporting_tier terms)"
    unfolding supporting_score_def
    by (rule sum_list_const) (use sup in \<open>simp add: supporting_points_def\<close>)
  then have ss: "supporting_score U content terms = 0" by simp
  show c: "critical_share U content terms = 50"
    by (simp add: critical_share_def tier_share_def cs lc js_mul_def js_div_def fl_values)
  show i: "important_share U content terms = 0"
    by (simp add: important_share_def tier_share_def iz li js_mul_def js_div_def fl_values)
  show s: "supporting_share U content terms = (if k = 0 then 20 else 0)"
    by (simp add: supporting_share_def tier_share_def ss ls js_mul_def js_div_def fl_values)
  show "spec_percentage U content terms = (if k = 0 then 70 else 50)"
    by (simp add: spec_percentage_def c i s js_add_def fl_values Math_round_values)
qed

lemma thirty_occurrences:
  "map (occurrences ascii_tables critical_only_content) thirty_terms =
     [3,3,3,3,3,3,3,3,3,3,0,0,0,0,0,0,0,0,0,0,0,0,0,0,0,0,0,0,0,0]"
  by (simp add: occurrences_def countOccurrences_def critical_only_content_def thirty_terms_def
      ascii_tables_def ascii_lower_def ascii_upper_def str_simps)

lemma thirty_present:
  "map (present ascii_tables critical_only_content) (supporting_tier thirty_terms) =
     [False, False, False, False, False]"
  by (simp add: present_def critical_only_content_def thirty_terms_def supporting_tier_def
      ascii_tables_def ascii_lower_def str_simps)

lemma thirty_hyps:
  "length thirty_terms = 25 + 5"
  "\<forall>t\<in>set (critical_tier thirty_terms). 3 \<le> occurrences ascii_tables critical_only_content t"
  "\<forall>t\<in>set (important_tier thirty_terms). occurrences ascii_tables critical_only_content t = 0"
  "\<forall>t\<in>set (supporting_tier thirty_terms). \<not> present ascii_tables critical_only_content t"
proof -
  let ?f = "occurrences ascii_tables critical_only_content"
  show "length thirty_terms = 25 + 5" by (simp add: thirty_terms_def)
  have "\<forall>v\<in>set (map ?f (critical_tier thirty_terms)). 3 \<le> v"
    unfolding critical_tier_def take_map[symmetric] thirty_occurrences by simp
  then show "\<forall>t\<in>set (critical_tier thirty_terms). 3 \<le> ?f t" by simp
  have "\<forall>v\<in>set (map ?f (important_tier thirty_terms)). v = 0"
    unfolding important_tier_def take_map[symmetric] drop_map[symmetric] thirty_occurrences
    by simp
  then show "\<forall>t\<in>set (important_tier thirty_terms). ?f t = 0" by simp
  have "\<forall>v\<in>set (map (present ascii_tables critical_only_content)
                     (supporting_tier thirty_terms)). \<not> v"
    unfolding thirty_present by simp
  then show "\<forall>t\<in>set (supporting_tier thirty_terms).
               \<not> present ascii_tables critical_only_content t" by simp
qed

text \<open>
  C2, as stated, fails. \<open>thirty_terms\<close> has 10 critical, 15 important and 5 supporting
  terms, \<open>critical_only_content\<close> holds every critical term three times and no other term,
  and the supporting tier, which is not empty, contributes 0, not 20: the percentage is 50,
  not 70.
\<close>

theorem critical_only_thirty_terms_scores_50:
  "map (occurrences ascii_tables critical_only_content) thirty_terms =
     [3,3,3,3,3,3,3,3,3,3,0,0,0,0,0,0,0,0,0,0,0,0,0,0,0,0,0,0,0,0] \<and>
   map (present ascii_tables critical_only_content) (supporting_tier thirty_terms) =
     [False, False, False, False, False] \<and>
   supporting_share ascii_tables critical_only_content thirty_terms = 0 \<and>
   percentage (calculateScore ascii_tables critical_only_content thirty_analysis) = 50 \<and>
   percentage (calculateScore ascii_tables critical_only_content thirty_analysis) \<noteq> 70"
  using critical_only_shares [OF thirty_hyps]
  by (simp add: thirty_occurrences thirty_present percentage_calculateScore thirty_analysis_def)

text \<open>
  C2, amended. For a term list of 25 + k terms (10 critical, 15 important, k supporting) and
  a content in which every critical term occurs at least 3 times and no important or
  supporting term occurs, the critical tier contributes 50 of 50 and the important tier 0 of
  30; the supporting tier contributes 0 of 20 when it has terms (k > 0, so for the 5
  supporting terms of the claim) and 20 by the empty-tier default only when it has none; the
  percentage is 50 when there are supporting terms and 70 when there are none.
\<close>

theorem critical_only_percentage:
  assumes "length (recommendedTerms analysis) = 25 + k"
    and "\<forall>t\<in>set (critical_tier (recommendedTerms analysis)). 3 \<le> occurrences U content t"
    and "\<forall>t\<in>set (important_tier (recommendedTerms analysis)). occurrences U content t = 0"
    and "\<forall>t\<in>set (supporting_tier (recommendedTerms analysis)). \<not> present U content t"
  shows "critical_share U content (recommendedTerms analysis) = 50 \<and>
         important_share U content (recommendedTerms analysis) = 0 \<and>
         supporting_share U content (recommendedTerms analysis) = (if k = 0 then 20 else 0) \<and>
         percentage (calculateScore U content analysis) = (if k = 0 then 70 else 50)"
  using critical_only_shares [OF assms] by (simp add: percentage_calculateScore)

theorem critical_only_percentage_witness:
  "length (recommendedTerms thirty_analysis) = 25 + 5 \<and>
   critical_share ascii_tables critical_only_content (recommendedTerms thirty_analysis) = 50 \<and>
   important_share ascii_tables critical_only_content (recommendedTerms thirty_analysis) = 0 \<and>
   supporting_share ascii_tables critical_only_content (recommendedTerms thirty_analysis) = 0 \<and>
   percentage (calculateScore ascii_tables critical_only_content thirty_analysis) = 50"
proof -
  have r: "recommendedTerms thirty_analysis = thirty_terms"
    by (simp add: thirty_analysis_def)
  show ?thesis
    using critical_only_percentage [of thirty_analysis 5 ascii_tables critical_only_content]
      thirty_hyps
    unfolding r by simp
qed

text \<open>
  C3, as stated, fails: a critical term that occurs once is in \<open>missingTerms\<close>.
\<close>

theorem critical_term_occurring_once_is_missing:
  "occurrences ascii_tables (str ''seo'') (str ''seo'') = 1 \<and>
   missingTerms (calculateScore ascii_tables (str ''seo'') one_term_analysis) = [str ''seo'']"
  by (simp add: missingTerms_calculateScore one_term_analysis_def critical_tier_def
      important_tier_def occurrences_def countOccurrences_def ascii_tables_def
      ascii_lower_def ascii_upper_def str_simps)

text \<open>
  C3, amended. For every content and analysis, \<open>missingTerms\<close> is the critical terms with
  fewer than three occurrences (those with none and those with one or two, which the code
  flags as needing more), in rank order, followed by the first five important terms with no
  occurrence.
\<close>

theorem calculateScore_missingTerms:
  "missingTerms (calculateScore U content analysis) =
     filter (\<lambda>t. occurrences U content t < 3) (take 10 (recommendedTerms analysis)) @
     take 5 (filter (\<lambda>t. occurrences U content t = 0)
               (take 15 (drop 10 (recommendedTerms analysis))))"
  unfolding missingTerms_calculateScore critical_tier_def important_tier_def ..


section \<open>Properties of link deduplication\<close>

lemma startsWith_append: "startsWith (a @ b) a"
  by (induction a) auto

lemma startsWith_iff: "startsWith s t \<longleftrightarrow> (\<exists>r. s = t @ r)"
  by (induction s t rule: startsWith.induct) auto

lemma match_link_markup:
  "match_link s = Some (m, t, u) \<Longrightarrow> m = markup (Link t u)"
  by (auto simp: match_link_def Let_def split: list.splits if_splits)

lemma match_link_not_bracket: "x \<noteq> LBRACKET \<Longrightarrow> match_link (x # s) = None"
  by (simp add: match_link_def)

lemma match_link_link:
  assumes "is_internal_link t u"
  shows "match_link (link t u @ r) = Some (link t u, t, u)"
proof -
  from assms obtain v where u: "u = habitto_prefix @ v" and v: "v \<noteq> []" "RPAREN \<notin> set v"
    by (auto simp: is_internal_link_def startsWith_iff)
  from assms have t: "t \<noteq> []" "\<forall>c\<in>set t. c \<noteq> RBRACKET"
    by (auto simp: is_internal_link_def)
  from v have v': "\<forall>c\<in>set v. c \<noteq> RPAREN" by auto
  have tw: "takeWhile (\<lambda>c. c \<noteq> RBRACKET) (t @ RBRACKET # LPAREN # habitto_prefix @ v @ RPAREN # r) = t"
    using t by (simp add: takeWhile_tail)
  have dw: "dropWhile (\<lambda>c. c \<noteq> RBRACKET) (t @ RBRACKET # LPAREN # habitto_prefix @ v @ RPAREN # r)
      = RBRACKET # LPAREN # habitto_prefix @ v @ RPAREN # r"
    using t by (simp add: dropWhile_append3)
  have sw: "startsWith (RBRACKET # LPAREN # habitto_prefix @ v @ RPAREN # r) (RBRACKET # LPAREN # habitto_prefix)"
    using startsWith_append [of "RBRACKET # LPAREN # habitto_prefix" "v @ RPAREN # r"] by simp
  have tw2: "takeWhile (\<lambda>c. c \<noteq> RPAREN) (v @ RPAREN # r) = v"
    using v' by (simp add: takeWhile_tail)
  have dw2: "dropWhile (\<lambda>c. c \<noteq> RPAREN) (v @ RPAREN # r) = RPAREN # r"
    using v' by (simp add: dropWhile_append3)
  show ?thesis
    unfolding match_link_def link_def u
    using t v sw by (simp add: tw dw tw2 dw2 Let_def)
qed

lemma dedupe_from_plain:
  "LBRACKET \<notin> set p \<Longrightarrow> dedupe_from seen (p @ r) = p @ dedupe_from seen r"
  by (induction p) (auto simp: match_link_not_bracket)

lemma dedupe_from_link:
  assumes "is_internal_link t u"
  shows "dedupe_from seen (link t u @ r) =
     (if normalizeUrl u \<in> seen then t else link t u) @ dedupe_from (insert (normalizeUrl u) seen) r"
proof -
  define rest where "rest = tl (link t u @ r)"
  have l: "link t u @ r = LBRACKET # rest" by (simp add: link_def rest_def)
  have d: "drop (length (link t u) - Suc 0) rest = r"
    by (simp add: link_def rest_def numeral_3_eq_3)
  have m: "match_link (LBRACKET # rest) = Some (link t u, t, u)"
    using match_link_link [OF assms, of r] by (simp add: l)
  show ?thesis
    unfolding l by (simp add: m d insert_absorb)
qed

lemma three_links:
  assumes "is_internal_link t1 u1" "is_internal_link t2 u2" "is_internal_link t3 u3"
    and "normalizeUrl u2 = normalizeUrl u1" "normalizeUrl u3 = normalizeUrl u1"
    and "LBRACKET \<notin> set p0" "LBRACKET \<notin> set p1" "LBRACKET \<notin> set p2" "LBRACKET \<notin> set p3"
  shows "dedupeInternalLinks (p0 @ link t1 u1 @ p1 @ link t2 u2 @ p2 @ link t3 u3 @ p3) =
      p0 @ link t1 u1 @ p1 @ t2 @ p2 @ t3 @ p3"
  using assms dedupe_from_plain [of p3 "{normalizeUrl u1}" "[]"]
  by (simp add: dedupeInternalLinks_def dedupe_from_plain dedupe_from_link)

lemma rewrite_from_Cons_Suc:
  "rewrite_from seen (t # ts) (Suc i) = rewrite_from (seen \<union> set (link_urls [t])) ts i"
  by (cases t) (simp_all add: rewrite_from_def cong: token.case_cong)

lemma rewrite_from_0:
  "rewrite_from seen (Plain c # ts) 0 = [c]"
  "rewrite_from seen (Link t u # ts) 0 =
     (if normalizeUrl u \<in> seen then t else markup (Link t u))"
  by (simp_all add: rewrite_from_def)

lemma rewrites_Cons:
  "concat (map (rewrite_from seen (t # ts)) [0..<length (t # ts)]) =
     rewrite_from seen (t # ts) 0 @
     concat (map (rewrite_from (seen \<union> set (link_urls [t])) ts) [0..<length ts])"
proof -
  have "[0..<length (t # ts)] = 0 # map Suc [0..<length ts]"
    by (simp add: upt_conv_Cons map_Suc_upt del: upt_Suc)
  then show ?thesis
    by (simp add: rewrite_from_Cons_Suc comp_def del: upt_Suc)
qed

lemma dedupe_from_rewrites:
  "dedupe_from seen s = concat (map (rewrite_from seen (tokens s)) [0..<length (tokens s)])"
proof (induction seen s rule: dedupe_from.induct)
  case (1 seenUrls)
  then show ?case by simp
next
  case (2 seenUrls x s)
  show ?case
  proof (cases "match_link (x # s)")
    case None
    then have tk: "tokens (x # s) = Plain x # tokens s" by simp
    show ?thesis
      unfolding tk rewrites_Cons using None 2(1)
      by (simp add: rewrite_from_0)
  next
    case (Some a)
    obtain m t u where a: "a = (m, t, u)" by (cases a)
    have tk: "tokens (x # s) = Link t u # tokens (drop (length m - 1) s)"
      using Some a by simp
    have mk: "m = markup (Link t u)" using Some a match_link_markup by blast
    show ?thesis
    proof (cases "normalizeUrl u \<in> seenUrls")
      case True
      then have ins: "seenUrls \<union> {normalizeUrl u} = seenUrls" by auto
      show ?thesis
        unfolding tk rewrites_Cons using Some a True 2(2) [OF Some a [symmetric] refl refl True]
        by (simp add: rewrite_from_0 insert_absorb)
    next
      case False
      show ?thesis
        unfolding tk rewrites_Cons using Some a False mk 2(3) [OF Some a [symmetric] refl refl False]
        by (simp add: rewrite_from_0)
    qed
  qed
qed

lemma dedupe_rewrites:
  "dedupeInternalLinks s = concat (map (rewrite_at (tokens s)) [0..<length (tokens s)])"
proof -
  have "rewrite_at (tokens s) = rewrite_from {} (tokens s)"
    by (rule ext) (simp add: rewrite_at_def rewrite_from_def cong: token.case_cong)
  then show ?thesis by (simp add: dedupeInternalLinks_def dedupe_from_rewrites)
qed



lemma match_link_prefix:
  assumes "match_link (x # s) = Some (m, t, u)"
  shows "x # s = m @ drop (length m - 1) s"
proof -
  define P where "P = (\<lambda>c::nat. c \<noteq> RBRACKET)"
  define Q where "Q = (\<lambda>c::nat. c \<noteq> RPAREN)"
  define s2 where "s2 = dropWhile P s"
  define s3 where "s3 = drop (2 + length habitto_prefix) s2"
  define tail where "tail = takeWhile Q s3"
  define s4 where "s4 = dropWhile Q s3"
  from assms have x: "x = LBRACKET" and t: "t = takeWhile P s"
    and sw: "startsWith s2 (RBRACKET # LPAREN # habitto_prefix)"
    and s4: "s4 \<noteq> []" and m: "m = [LBRACKET] @ t @ [RBRACKET, LPAREN] @ habitto_prefix @ tail @ [RPAREN]"
    by (auto simp: match_link_def Let_def P_def Q_def s2_def s3_def s4_def tail_def split: if_splits)
  have a: "s = t @ s2" by (simp add: t s2_def)
  from sw obtain r where r: "s2 = (RBRACKET # LPAREN # habitto_prefix) @ r"
    unfolding startsWith_iff by blast
  have b: "s2 = RBRACKET # LPAREN # habitto_prefix @ s3" using r by (simp add: s3_def)
  have c: "s3 = tail @ s4" by (simp add: tail_def s4_def)
  have "\<not> Q (hd s4)" using s4 unfolding s4_def by (rule hd_dropWhile)
  then have d: "s4 = RPAREN # tl s4" using s4 by (cases s4) (auto simp: Q_def)
  have e: "s = t @ RBRACKET # LPAREN # habitto_prefix @ tail @ RPAREN # tl s4"
    using a b c d by simp
  show ?thesis unfolding x m by (subst (1 2) e) (simp add: numeral_3_eq_3)
qed

lemma tokens_markup: "concat (map markup (tokens s)) = s"
proof (induction s rule: tokens.induct)
  case 1
  then show ?case by simp
next
  case (2 x s)
  show ?case
  proof (cases "match_link (x # s)")
    case None
    with 2(1) show ?thesis by simp
  next
    case (Some a)
    obtain m t u where a: "a = (m, t, u)" by (cases a)
    have mk: "m = markup (Link t u)" using Some a match_link_markup by blast
    have pre: "x # s = m @ drop (length m - 1) s" using Some a match_link_prefix by blast
    have "concat (map markup (tokens (x # s))) = m @ concat (map markup (tokens (drop (length m - 1) s)))"
      using Some a mk by simp
    also have "\<dots> = m @ drop (length m - 1) s"
      using 2(2) [OF Some a [symmetric] refl] by simp
    finally show ?thesis using pre by simp
  qed
qed

lemma three_links_doc_deduped:
  "dedupeInternalLinks three_links_doc =
     str ''See '' @ link (str ''one'') (account_url @ [SLASH]) @ str '', two and three.''"
  by (simp add: dedupeInternalLinks_def three_links_doc_def link_def account_url_def str_def
      match_link_def habitto_prefix_def normalizeUrl_def Let_def)

lemma nested_links_doc_deduped:
  "dedupeInternalLinks nested_links_doc =
     link (str ''a'') account_url @ link (str ''b'') account_url"
  "dedupeInternalLinks (dedupeInternalLinks nested_links_doc) =
     link (str ''a'') account_url @ str ''b''"
  by (simp_all add: dedupeInternalLinks_def nested_links_doc_def link_def account_url_def
      str_def match_link_def habitto_prefix_def normalizeUrl_def Let_def)

text \<open>
  C6, at a failing input. In \<open>bracket_anchor_doc\<close> the expression finds three links to the
  account page. The pass keeps the first and writes the anchor texts of the other two; the
  anchor text of the second begins with an opening bracket, and with the markup behind it
  it makes a link to the same page again, so that the output links the page twice and has
  one anchor text as plain text, not two.
\<close>

theorem dedupeInternalLinks_leaves_second_link:
  "map normalizeUrl [account_url @ [SLASH], account_url] = [account_url, account_url] \<and>
   link_urls (tokens bracket_anchor_doc) = [account_url, account_url, account_url] \<and>
   dedupeInternalLinks bracket_anchor_doc =
     link (str ''a'') (account_url @ [SLASH]) @ link (str ''b'') account_url @ str ''c'' \<and>
   link_urls (tokens (dedupeInternalLinks bracket_anchor_doc)) = [account_url, account_url]"
  by (simp add: dedupeInternalLinks_def bracket_anchor_doc_def link_def account_url_def
      str_def match_link_def habitto_prefix_def normalizeUrl_def Let_def)

text \<open>
  C10, at a failing input. \<open>nested_links_doc\<close> links the account page once and then again
  inside the brackets of a third link to it. One pass strips the outer brackets of the
  nested link, which leaves the inner link standing as markup: the page is still linked
  twice, and a second pass changes the text again.
\<close>

theorem dedupeInternalLinks_twice_on_nested_links:
  "dedupeInternalLinks nested_links_doc =
     link (str ''a'') account_url @ link (str ''b'') account_url \<and>
   dedupeInternalLinks (dedupeInternalLinks nested_links_doc) =
     link (str ''a'') account_url @ str ''b'' \<and>
   dedupeInternalLinks (dedupeInternalLinks nested_links_doc) \<noteq>
     dedupeInternalLinks nested_links_doc"
proof -
  have ne: "link (str ''a'') account_url @ str ''b'' \<noteq>
      link (str ''a'') account_url @ link (str ''b'') account_url"
    by (simp add: link_def str_def)
  show ?thesis
  proof (intro conjI)
    show "dedupeInternalLinks nested_links_doc =
        link (str ''a'') account_url @ link (str ''b'') account_url"
      by (rule nested_links_doc_deduped(1))
    show "dedupeInternalLinks (dedupeInternalLinks nested_links_doc) =
        link (str ''a'') account_url @ str ''b''"
      by (rule nested_links_doc_deduped(2))
    show "dedupeInternalLinks (dedupeInternalLinks nested_links_doc) \<noteq>
        dedupeInternalLinks nested_links_doc"
      by (subst nested_links_doc_deduped(2), subst nested_links_doc_deduped(1)) (rule ne)
  qed
qed


section \<open>Properties of the Link Placer\<close>

lemma mset_insert_by: "mset (insert_by c x ys) = add_mset x (mset ys)"
  by (induction ys) auto

lemma mset_js_sort: "mset (js_sort c xs) = mset xs"
  by (induction xs) (auto simp: js_sort_def mset_insert_by)

lemma set_js_sort: "set (js_sort c xs) = set xs"
  using mset_js_sort by (metis set_mset_mset)

lemma length_js_sort: "length (js_sort c xs) = length xs"
  using mset_js_sort by (metis size_mset)

lemma distinct_map_js_sort: "distinct (map f (js_sort c xs)) = distinct (map f xs)"
proof -
  have "mset (map f (js_sort c xs)) = mset (map f xs)"
    using mset_js_sort [of c xs] by (metis mset_map)
  then show ?thesis by (rule mset_eq_imp_distinct_iff)
qed

lemma sorted_insert_by:
  assumes le: "\<And>a b. c a b \<le> 0 \<longleftrightarrow> P a b"
    and total: "\<And>a b. P a b \<or> P b a"
    and trans: "\<And>a b d. P a b \<Longrightarrow> P b d \<Longrightarrow> P a d"
    and "sorted_wrt P ys"
  shows "sorted_wrt P (insert_by c x ys)"
  using assms(4)
proof (induction ys)
  case Nil
  then show ?case by simp
next
  case (Cons y ys)
  show ?case
  proof (cases "c x y \<le> 0")
    case True
    then have "P x y" using le by simp
    then have "\<forall>z\<in>set (y # ys). P x z" using Cons.prems trans by auto
    then show ?thesis using True Cons.prems by simp
  next
    case False
    then have "P y x" using le total by blast
    then have "\<forall>z\<in>set (insert_by c x ys). P y z"
      using Cons.prems by (metis mset_insert_by set_mset_add_mset_insert set_mset_mset insert_iff sorted_wrt.simps(2))
    then show ?thesis using False Cons by simp
  qed
qed

lemma sorted_js_sort:
  assumes le: "\<And>a b. c a b \<le> 0 \<longleftrightarrow> P a b"
    and total: "\<And>a b. P a b \<or> P b a"
    and trans: "\<And>a b d. P a b \<Longrightarrow> P b d \<Longrightarrow> P a d"
  shows "sorted_wrt P (js_sort c xs)"
proof (induction xs)
  case Nil
  then show ?case by (simp add: js_sort_def)
next
  case (Cons x xs)
  have "js_sort c (x # xs) = insert_by c x (js_sort c xs)" by (simp add: js_sort_def)
  then show ?case using sorted_insert_by [OF le total trans Cons] by simp
qed

lemma compare_opportunities_le:
  "compare_opportunities a b \<le> 0 \<longleftrightarrow> priority_then_position a b"
  by (auto simp: compare_opportunities_def priority_then_position_def)

lemma sorted_sortedOpportunities:
  "sorted_wrt priority_then_position (sortedOpportunities pages content)"
  unfolding sortedOpportunities_def
  by (rule sorted_js_sort [OF compare_opportunities_le])
     (auto simp: priority_then_position_def)

lemma stable_insert_by:
  assumes le: "\<And>a b. c a b \<le> 0 \<longleftrightarrow> k a \<le> (k b :: nat)"
    and "sorted_wrt (\<lambda>a b. k a < k b \<or> k a = k b \<and> R a b) ys"
    and "\<forall>y\<in>set ys. R x y"
  shows "sorted_wrt (\<lambda>a b. k a < k b \<or> k a = k b \<and> R a b) (insert_by c x ys)"
  using assms(2,3)
proof (induction ys)
  case Nil
  then show ?case by simp
next
  case (Cons y ys)
  show ?case
  proof (cases "c x y \<le> 0")
    case True
    then have xy: "k x \<le> k y" using le by simp
    have "\<forall>z\<in>set ys. k y \<le> k z" using Cons.prems(1) by auto
    then have "\<forall>z\<in>set (y # ys). k x < k z \<or> k x = k z \<and> R x z"
      using xy Cons.prems(2) by (auto simp: le_less)
    then show ?thesis using True Cons.prems by simp
  next
    case False
    then have yx: "k y < k x" using le by (simp add: not_le)
    have s: "set (insert_by c x ys) = insert x (set ys)"
      by (metis mset_insert_by set_mset_add_mset_insert set_mset_mset)
    show ?thesis using False Cons yx by (simp add: s)
  qed
qed

lemma stable_js_sort:
  assumes le: "\<And>a b. c a b \<le> 0 \<longleftrightarrow> k a \<le> (k b :: nat)"
    and "sorted_wrt R xs"
  shows "sorted_wrt (\<lambda>a b. k a < k b \<or> k a = k b \<and> R a b) (js_sort c xs)"
  using assms(2)
proof (induction xs)
  case Nil
  then show ?case by (simp add: js_sort_def)
next
  case (Cons x xs)
  have j: "js_sort c (x # xs) = insert_by c x (js_sort c xs)" by (simp add: js_sort_def)
  show ?case unfolding j
    by (rule stable_insert_by [OF le]) (use Cons in \<open>auto simp: set_js_sort\<close>)
qed

lemma spaced_after_two_iff:
  "spaced_after_two r \<longleftrightarrow>
     (\<forall>i<length r. 2 \<le> i \<longrightarrow>
        (\<forall>j<i. 3 \<le> \<bar>int (paragraph_index (r ! i)) - int (paragraph_index (r ! j))\<bar>))"
  by (auto simp: spaced_after_two_def list_all_iff)

lemma spaced_append:
  assumes "spaced_after_two r"
    and "2 \<le> length r \<longrightarrow>
           (\<forall>s\<in>set r. 3 \<le> \<bar>int (paragraph_index s) - int (paragraph_index x)\<bar>)"
  shows "spaced_after_two (r @ [x])"
  unfolding spaced_after_two_iff
proof (intro allI impI)
  fix i j
  assume i: "i < length (r @ [x])" "2 \<le> i" and j: "j < i"
  show "3 \<le> \<bar>int (paragraph_index ((r @ [x]) ! i)) - int (paragraph_index ((r @ [x]) ! j))\<bar>"
  proof (cases "i < length r")
    case True
    then show ?thesis
      using assms(1) i j unfolding spaced_after_two_iff by (simp add: nth_append)
  next
    case False
    then have il: "i = length r" using i by simp
    then have "r ! j \<in> set r" using j by simp
    then have "3 \<le> \<bar>int (paragraph_index (r ! j)) - int (paragraph_index x)\<bar>"
      using assms(2) i il by blast
    then show ?thesis using il j by (simp add: nth_append abs_minus_commute)
  qed
qed

lemma not_hasNearbyLink:
  "\<not> hasNearbyLink suggestions opp \<longleftrightarrow>
     (\<forall>s\<in>set suggestions. 3 \<le> \<bar>int (paragraph_index s) - int (paragraph_index opp)\<bar>)"
  by (auto simp: hasNearbyLink_def list_ex_iff not_less)

lemma select_loop_inv:
  assumes "set (map link_url sugg) \<subseteq> used" "distinct (map link_url sugg)"
    "length sugg < 5" "spaced_after_two sugg"
    "select_loop opps (sugg, used) = (r, u)"
  shows "distinct (map link_url r) \<and> length r \<le> 5 \<and> spaced_after_two r"
  using assms
proof (induction opps arbitrary: sugg used)
  case Nil
  then show ?case by simp
next
  case (Cons opp rest)
  show ?case
  proof (cases "link_url opp \<in> used \<or> (hasNearbyLink sugg opp \<and> 2 \<le> length sugg)")
    case True
    then have "select_loop (opp # rest) (sugg, used) = select_loop rest (sugg, used)" by auto
    then have "select_loop rest (sugg, used) = (r, u)" using Cons.prems(5) by simp
    then show ?thesis using Cons.IH Cons.prems by blast
  next
    case False
    then have nu: "link_url opp \<notin> used" and far: "\<not> hasNearbyLink sugg opp \<or> length sugg < 2"
      by auto
    have d: "distinct (map link_url (sugg @ [opp]))"
      using nu Cons.prems(1,2) by auto
    have sub: "set (map link_url (sugg @ [opp])) \<subseteq> insert (link_url opp) used"
      using Cons.prems(1) by auto
    have sp: "spaced_after_two (sugg @ [opp])"
      using far Cons.prems(4) not_hasNearbyLink by (intro spaced_append) auto
    show ?thesis
    proof (cases "5 \<le> length (sugg @ [opp])")
      case True
      then have "select_loop (opp # rest) (sugg, used) =
          (sugg @ [opp], insert (link_url opp) used)"
        using False by (auto simp: Let_def)
      then have "r = sugg @ [opp]" using Cons.prems(5) by simp
      then show ?thesis using d sp Cons.prems(3) by simp
    next
      case short: False
      then have "select_loop (opp # rest) (sugg, used) =
          select_loop rest (sugg @ [opp], insert (link_url opp) used)"
        using False by (auto simp: Let_def)
      then have "select_loop rest (sugg @ [opp], insert (link_url opp) used) = (r, u)"
        using Cons.prems(5) by simp
      then show ?thesis using Cons.IH [OF sub d _ sp] short by simp
    qed
  qed
qed

lemma select_loop_subseq:
  "\<exists>picks. fst (select_loop opps (sugg, used)) = sugg @ picks \<and> subseq picks opps"
proof (induction opps arbitrary: sugg used)
  case Nil
  then show ?case by simp
next
  case (Cons opp rest)
  show ?case
  proof (cases "link_url opp \<in> used \<or> (hasNearbyLink sugg opp \<and> 2 \<le> length sugg)")
    case True
    then have "select_loop (opp # rest) (sugg, used) = select_loop rest (sugg, used)" by auto
    moreover obtain picks where "fst (select_loop rest (sugg, used)) = sugg @ picks"
      "subseq picks rest" using Cons.IH by blast
    ultimately have "fst (select_loop (opp # rest) (sugg, used)) = sugg @ picks"
      by simp
    moreover have "subseq picks (opp # rest)"
      using \<open>subseq picks rest\<close> by (rule list_emb_Cons)
    ultimately show ?thesis by blast
  next
    case False
    show ?thesis
    proof (cases "5 \<le> length (sugg @ [opp])")
      case True
      then have "fst (select_loop (opp # rest) (sugg, used)) = sugg @ [opp]"
        using False by (auto simp: Let_def)
      moreover have "subseq [opp] (opp # rest)" by simp
      ultimately show ?thesis by blast
    next
      case short: False
      then have e: "select_loop (opp # rest) (sugg, used) =
          select_loop rest (sugg @ [opp], insert (link_url opp) used)"
        using False by (auto simp: Let_def)
      obtain picks where "fst (select_loop rest (sugg @ [opp], insert (link_url opp) used)) =
          (sugg @ [opp]) @ picks" "subseq picks rest"
        using Cons.IH by blast
      then have "fst (select_loop (opp # rest) (sugg, used)) = sugg @ (opp # picks)"
        "subseq (opp # picks) (opp # rest)"
        using e by simp_all
      then show ?thesis by blast
    qed
  qed
qed

lemma suggestLinks_with_properties:
  "distinct (map link_url (suggestLinks_with pages content)) \<and>
   length (suggestLinks_with pages content) \<le> 5 \<and>
   spaced_after_two (suggestLinks_with pages content) \<and>
   subseq (suggestLinks_with pages content) (sortedOpportunities pages content)"
proof -
  obtain r u where ru: "select_loop (sortedOpportunities pages content) ([], {}) = (r, u)"
    by (cases "select_loop (sortedOpportunities pages content) ([], {})")
  have "distinct (map link_url r) \<and> length r \<le> 5 \<and> spaced_after_two r"
    by (rule select_loop_inv [OF _ _ _ _ ru]) (simp_all add: spaced_after_two_def)
  moreover have "subseq r (sortedOpportunities pages content)"
    using select_loop_subseq [of "sortedOpportunities pages content" "[]" "{}"] ru by simp
  ultimately show ?thesis by (simp add: suggestLinks_with_def ru)
qed

lemma lib_pages_loop_inv:
  assumes "set (map link_url sugg) \<subseteq> used" "distinct (map link_url sugg)"
    "sorted_wrt (\<lambda>a b. paragraph_index a < paragraph_index b) sugg"
    "\<forall>s\<in>set sugg. paragraph_index s < index"
    "lib_pages_loop index p h pages (sugg, used) = (r, u)"
  shows "set (map link_url r) \<subseteq> u \<and> distinct (map link_url r) \<and>
         sorted_wrt (\<lambda>a b. paragraph_index a < paragraph_index b) r \<and>
         (\<forall>s\<in>set r. paragraph_index s < Suc index)"
  using assms
proof (induction pages arbitrary: sugg used)
  case Nil
  then show ?case by (auto simp: less_Suc_eq)
next
  case (Cons page pages)
  have none: "\<not> list_ex (\<lambda>s. paragraph_index s = index) sugg"
    using Cons.prems(4) by (auto simp: list_ex_iff)
  show ?case
  proof (cases "page_url page \<in> used \<or> (page_priority page = 1 \<and> \<not> h)")
    case True
    then have "lib_pages_loop index p h (page # pages) (sugg, used) =
        lib_pages_loop index p h pages (sugg, used)" by auto
    then have "lib_pages_loop index p h pages (sugg, used) = (r, u)"
      using Cons.prems(5) by simp
    then show ?thesis using Cons.IH Cons.prems by blast
  next
    case False
    show ?thesis
    proof (cases "first_keyword p (page_keywords page)")
      case None
      then have "lib_pages_loop index p h (page # pages) (sugg, used) =
          lib_pages_loop index p h pages (sugg, used)"
        using False none by auto
      then have "lib_pages_loop index p h pages (sugg, used) = (r, u)"
        using Cons.prems(5) by simp
      then show ?thesis using Cons.IH Cons.prems by blast
    next
      case (Some keyword)
      define new where "new = \<lparr>paragraph_index = index,
          anchorText = choose_anchor p (page_anchors page) keyword,
          link_url = page_url page, link_priority = page_priority page\<rparr>"
      have "lib_pages_loop index p h (page # pages) (sugg, used) =
          (sugg @ [new], insert (page_url page) used)"
        using False Some by (auto simp: new_def list_ex_iff)
      then have "r = sugg @ [new]" "u = insert (page_url page) used"
        using Cons.prems(5) by simp_all
      then show ?thesis using Cons.prems(1-4) False
        by (auto simp: new_def sorted_wrt_append less_Suc_eq)
    qed
  qed
qed

lemma lib_paragraphs_loop_inv:
  assumes "set (map link_url sugg) \<subseteq> used" "distinct (map link_url sugg)"
    "sorted_wrt (\<lambda>a b. paragraph_index a < paragraph_index b) sugg"
    "\<forall>s\<in>set sugg. paragraph_index s < index"
    "lib_paragraphs_loop pages hw index ps (sugg, used) = (r, u)"
  shows "distinct (map link_url r) \<and>
         sorted_wrt (\<lambda>a b. paragraph_index a < paragraph_index b) r"
  using assms
proof (induction ps arbitrary: sugg used index)
  case Nil
  then show ?case by simp
next
  case (Cons p ps)
  have next_index: "\<forall>s\<in>set sugg. paragraph_index s < Suc index"
    using Cons.prems(4) by (auto simp: less_Suc_eq)
  show ?case
  proof (cases "(startsWith p [HASH] \<or> length p < 50) \<or> js_includes p (str ''](http'')")
    case True
    then have "lib_paragraphs_loop pages hw index (p # ps) (sugg, used) =
        lib_paragraphs_loop pages hw (Suc index) ps (sugg, used)" by auto
    then have "lib_paragraphs_loop pages hw (Suc index) ps (sugg, used) = (r, u)"
      using Cons.prems(5) by simp
    then show ?thesis using Cons.IH [OF Cons.prems(1-3) next_index] by blast
  next
    case False
    obtain r' u' where l: "lib_pages_loop index p (hw \<le> index) pages (sugg, used) = (r', u')"
      by (cases "lib_pages_loop index p (hw \<le> index) pages (sugg, used)")
    have "lib_paragraphs_loop pages hw index (p # ps) (sugg, used) =
        lib_paragraphs_loop pages hw (Suc index) ps (r', u')"
      using False l by auto
    then have step: "lib_paragraphs_loop pages hw (Suc index) ps (r', u') = (r, u)"
      using Cons.prems(5) by simp
    have inv: "set (map link_url r') \<subseteq> u' \<and> distinct (map link_url r') \<and>
         sorted_wrt (\<lambda>a b. paragraph_index a < paragraph_index b) r' \<and>
         (\<forall>s\<in>set r'. paragraph_index s < Suc index)"
      by (rule lib_pages_loop_inv [OF Cons.prems(1-4) l])
    show ?thesis using Cons.IH [OF _ _ _ _ step] inv by blast
  qed
qed

lemma compare_priority_le:
  "compare_priority a b \<le> 0 \<longleftrightarrow> link_priority a \<le> link_priority b"
  by (simp add: compare_priority_def)

lemma lib_suggestLinks_with_properties:
  "distinct (map link_url (lib_suggestLinks_with pages content)) \<and>
   length (lib_suggestLinks_with pages content) \<le> 6 \<and>
   sorted_wrt priority_then_position (lib_suggestLinks_with pages content) \<and>
   distinct (map paragraph_index (lib_suggestLinks_with pages content))"
proof -
  define ps where "ps = split_paragraphs [] content"
  obtain r u where ru: "lib_paragraphs_loop pages (length ps div 2) 0 ps ([], {}) = (r, u)"
    by (cases "lib_paragraphs_loop pages (length ps div 2) 0 ps ([], {})")
  have inv: "distinct (map link_url r) \<and>
         sorted_wrt (\<lambda>a b. paragraph_index a < paragraph_index b) r"
    by (rule lib_paragraphs_loop_inv [OF _ _ _ _ ru]) simp_all
  have res: "lib_suggestLinks_with pages content = take 6 (js_sort compare_priority r)"
    by (simp add: lib_suggestLinks_with_def Let_def ps_def [symmetric] ru slice_def)
  have "sorted_wrt (<) (map paragraph_index r)"
    using inv by (simp add: sorted_wrt_map)
  then have dp: "distinct (map paragraph_index r)"
    using strict_sorted_iff by blast
  have st: "sorted_wrt (\<lambda>a b. link_priority a < link_priority b \<or>
        link_priority a = link_priority b \<and> paragraph_index a < paragraph_index b)
      (js_sort compare_priority r)"
    by (rule stable_js_sort [OF compare_priority_le]) (use inv in simp)
  have "sorted_wrt priority_then_position (js_sort compare_priority r)"
    by (rule sorted_wrt_mono_rel [OF _ st]) (auto simp: priority_then_position_def)
  then have s: "sorted_wrt priority_then_position (take 6 (js_sort compare_priority r))"
    by (rule sorted_wrt_take)
  have d: "distinct (map link_url (take 6 (js_sort compare_priority r)))"
    using inv distinct_take [of "map link_url (js_sort compare_priority r)" 6]
    by (simp add: distinct_map_js_sort take_map)
  have d2: "distinct (map paragraph_index (take 6 (js_sort compare_priority r)))"
    using dp distinct_take [of "map paragraph_index (js_sort compare_priority r)" 6]
    by (simp add: distinct_map_js_sort take_map)
  show ?thesis unfolding res using s d d2 by simp
qed

lemma draft_paragraphs:
  "split_paragraphs [] three_paragraph_draft =
     [str ''Habitto helps people save a little money every single month.'',
      str ''A Visa card gives cash back on every purchase you make here.'',
      str ''The iOS release lets you check the balance wherever you are.'']"
  by (simp add: three_paragraph_draft_def str_def)

lemma three_paragraph_draft_lib:
  "map paragraph_index (lib_suggestLinks three_paragraph_draft) = [1, 0, 2]"
  unfolding lib_suggestLinks_def lib_suggestLinks_with_def draft_paragraphs
  by (simp add: HABITTO_PAGES_lib_def str_def Let_def slice_def js_sort_def compare_priority_def
      choose_anchor_def)

lemma three_paragraph_draft_not_spaced:
  "\<not> spaced_after_two (lib_suggestLinks three_paragraph_draft)"
proof
  assume "spaced_after_two (lib_suggestLinks three_paragraph_draft)"
  then have "3 \<le> \<bar>int (map paragraph_index (lib_suggestLinks three_paragraph_draft) ! 2) -
      int (map paragraph_index (lib_suggestLinks three_paragraph_draft) ! 0)\<bar>"
    using three_paragraph_draft_lib
    unfolding spaced_after_two_iff
    by (metis length_map nth_map length_Cons list.size(3) lessI less_Suc_eq numeral_2_eq_2
        order_refl zero_less_Suc)
  then show False unfolding three_paragraph_draft_lib by simp
qed

text \<open>
  C5, as stated, fails for the library's \<^verbatim>\<open>suggestLinks\<close>, which has no proximity rule: for
  a draft of three paragraphs it returns insertions at paragraphs 1, 0 and 2, the third
  next to both earlier ones.
\<close>

theorem lib_suggestLinks_adjacent_paragraphs:
  "map paragraph_index (lib_suggestLinks three_paragraph_draft) = [1, 0, 2] \<and>
   \<not> spaced_after_two (lib_suggestLinks three_paragraph_draft)"
  using three_paragraph_draft_lib three_paragraph_draft_not_spaced by simp

text \<open>
  C5, amended. For every draft, both implementations return no page URL twice, at most 5
  insertions (edge function) and at most 6 (library). The edge function goes through all
  candidates in the order of (priority ascending, paragraph position ascending), selects in
  that order, and from the third selection on every selected insertion is at least three
  paragraphs away from every insertion selected before it. The library has no proximity
  rule: it returns at most one insertion per paragraph, ordered by (priority ascending,
  paragraph position ascending).
\<close>

theorem suggestLinks_properties:
  "(distinct (map link_url (suggestLinks content)) \<and>
    length (suggestLinks content) \<le> 5 \<and>
    sorted_wrt priority_then_position (sortedOpportunities HABITTO_PAGES content) \<and>
    mset (sortedOpportunities HABITTO_PAGES content) =
      mset (all_opportunities HABITTO_PAGES 0 (split_paragraphs [] content)) \<and>
    subseq (suggestLinks content) (sortedOpportunities HABITTO_PAGES content) \<and>
    spaced_after_two (suggestLinks content)) \<and>
   (distinct (map link_url (lib_suggestLinks content)) \<and>
    length (lib_suggestLinks content) \<le> 6 \<and>
    sorted_wrt priority_then_position (lib_suggestLinks content) \<and>
    distinct (map paragraph_index (lib_suggestLinks content)))"
  using suggestLinks_with_properties [of HABITTO_PAGES content]
    lib_suggestLinks_with_properties [of HABITTO_PAGES_lib content]
    sorted_sortedOpportunities [of HABITTO_PAGES content]
  by (simp add: suggestLinks_def lib_suggestLinks_def sortedOpportunities_def mset_js_sort)

section \<open>Lemmas on the job selection\<close>

lemma query_jobs_empty:
  "\<not> (\<exists>j\<in>set (jobs s). job_status j \<in> set sts) \<Longrightarrow> query_jobs sts s = []"
  by (simp add: query_jobs_def filter_empty_conv)

lemma query_jobs_oldest:
  assumes "\<exists>j\<in>set (jobs s). job_status j \<in> set sts"
  shows "\<exists>j. query_jobs sts s = [j] \<and> j \<in> set (jobs s) \<and> job_status j \<in> set sts \<and>
           (\<forall>k\<in>set (jobs s). job_status k \<in> set sts \<longrightarrow> created_at j \<le> created_at k)"
proof -
  define xs where "xs = sort_key created_at (filter (\<lambda>j. job_status j \<in> set sts) (jobs s))"
  have set_xs: "set xs = {j \<in> set (jobs s). job_status j \<in> set sts}"
    by (auto simp: xs_def)
  then have "xs \<noteq> []" using assms by auto
  then obtain j rest where xs: "xs = j # rest" by (cases xs) auto
  have "sorted (map created_at xs)" by (simp add: xs_def)
  then have "\<forall>k\<in>set xs. created_at j \<le> created_at k" unfolding xs by auto
  moreover have "j \<in> set xs" by (simp add: xs)
  moreover have "query_jobs sts s = [j]" using xs by (simp add: query_jobs_def xs_def)
  ultimately show ?thesis using set_xs by auto
qed

lemma in_progress_set: "st \<in> set [Researching, Analyzing, Writing] \<longleftrightarrow> in_progress st"
  by (auto simp: in_progress_def)

text \<open>The job selection by the outcome of its two queries.\<close>

lemma getNextJobToProcess_first:
  assumes "db_error env SelectInProgress = None"
    and "query_jobs [Researching, Analyzing, Writing] s = [j]"
  shows "getNextJobToProcess env s = Some j"
  using assms by (simp add: getNextJobToProcess_def select_jobs_def)

lemma getNextJobToProcess_second:
  assumes "db_error env SelectInProgress \<noteq> None \<or>
      query_jobs [Researching, Analyzing, Writing] s = []"
  shows "getNextJobToProcess env s =
     (if db_error env SelectPending = None \<and> query_jobs [Pending] s \<noteq> []
      then Some (query_jobs [Pending] s ! 0) else None)"
  using assms by (auto simp: getNextJobToProcess_def select_jobs_def split: option.splits)

lemma getNextJobToProcess_cases:
  "(db_error env SelectInProgress = None \<and>
    (\<exists>j\<in>set (jobs s). in_progress (job_status j)) \<longrightarrow>
      (\<exists>j. getNextJobToProcess env s = Some j \<and> j \<in> set (jobs s) \<and>
           in_progress (job_status j) \<and>
           (\<forall>k\<in>set (jobs s). in_progress (job_status k) \<longrightarrow> created_at j \<le> created_at k))) \<and>
   ((db_error env SelectInProgress \<noteq> None \<or>
     \<not> (\<exists>j\<in>set (jobs s). in_progress (job_status j))) \<and>
    db_error env SelectPending = None \<and> (\<exists>j\<in>set (jobs s). job_status j = Pending) \<longrightarrow>
      (\<exists>j. getNextJobToProcess env s = Some j \<and> j \<in> set (jobs s) \<and> job_status j = Pending \<and>
           (\<forall>k\<in>set (jobs s). job_status k = Pending \<longrightarrow> created_at j \<le> created_at k))) \<and>
   ((db_error env SelectInProgress \<noteq> None \<or>
     \<not> (\<exists>j\<in>set (jobs s). in_progress (job_status j))) \<and>
    (db_error env SelectPending \<noteq> None \<or> \<not> (\<exists>j\<in>set (jobs s). job_status j = Pending)) \<longrightarrow>
      getNextJobToProcess env s = None)"
proof (intro conjI impI)
  assume a: "db_error env SelectInProgress = None \<and>
    (\<exists>j\<in>set (jobs s). in_progress (job_status j))"
  then have "\<exists>j\<in>set (jobs s). job_status j \<in> set [Researching, Analyzing, Writing]"
    by (simp only: in_progress_set)
  from query_jobs_oldest [OF this] a
  show "\<exists>j. getNextJobToProcess env s = Some j \<and> j \<in> set (jobs s) \<and>
           in_progress (job_status j) \<and>
           (\<forall>k\<in>set (jobs s). in_progress (job_status k) \<longrightarrow> created_at j \<le> created_at k)"
    unfolding in_progress_set using getNextJobToProcess_first [of env s] by blast
next
  assume a: "(db_error env SelectInProgress \<noteq> None \<or>
     \<not> (\<exists>j\<in>set (jobs s). in_progress (job_status j))) \<and>
    db_error env SelectPending = None \<and> (\<exists>j\<in>set (jobs s). job_status j = Pending)"
  then have e: "db_error env SelectInProgress \<noteq> None \<or>
      query_jobs [Researching, Analyzing, Writing] s = []"
    using query_jobs_empty [of s "[Researching, Analyzing, Writing]"]
    by (simp only: in_progress_set) blast
  from a have "\<exists>j\<in>set (jobs s). job_status j \<in> set [Pending]" by simp
  from query_jobs_oldest [OF this]
  show "\<exists>j. getNextJobToProcess env s = Some j \<and> j \<in> set (jobs s) \<and> job_status j = Pending \<and>
           (\<forall>k\<in>set (jobs s). job_status k = Pending \<longrightarrow> created_at j \<le> created_at k)"
    using a by (auto simp: getNextJobToProcess_second [OF e])
next
  assume a: "(db_error env SelectInProgress \<noteq> None \<or>
     \<not> (\<exists>j\<in>set (jobs s). in_progress (job_status j))) \<and>
    (db_error env SelectPending \<noteq> None \<or> \<not> (\<exists>j\<in>set (jobs s). job_status j = Pending))"
  then have e: "db_error env SelectInProgress \<noteq> None \<or>
      query_jobs [Researching, Analyzing, Writing] s = []"
    using query_jobs_empty [of s "[Researching, Analyzing, Writing]"]
    by (simp only: in_progress_set) blast
  from a have "db_error env SelectPending \<noteq> None \<or> query_jobs [Pending] s = []"
    using query_jobs_empty [of s "[Pending]"] by auto
  then show "getNextJobToProcess env s = None"
    by (auto simp: getNextJobToProcess_second [OF e])
qed

lemma handler_select_job_eq: "handler_select_job env s = getNextJobToProcess env s"
  by (simp add: handler_select_job_def getNextJobToProcess_def)

section \<open>Runs of the dispatcher on a batch of one keyword\<close>

lemmas pipeline_defs =
  processOneStep_def caught_def will_retry_def finish_batch_def getJobsForBatch_def
  updateBatchStatus_def getNextJobToProcess_def select_jobs_def query_jobs_def
  doResearchStep_def research_try_def doAnalyzeStep_def analyze_try_def
  doWriteStep_def write_try_def generate_def call_writeBlog_def first_request_def
  retry_request_def seo_hints_def saveBlog_def updateJobStatus_def setJobError_def
  incrementBatchProgress_def set_status_def set_fields_def select_job_def falsy_def
  place_links_def MIN_ACCEPTABLE_SCORE_def

lemma lib_suggestLinks_text: "lib_suggestLinks (str ''text'') = []"
  by (simp add: lib_suggestLinks_def lib_suggestLinks_with_def str_def Let_def js_sort_def slice_def)

lemma extract_links_text: "extract_links (str ''text'') = []"
  by (simp add: str_def match_http_link_def)

lemma write_fails_after_completion:
  "status_log (snd (processOneStep counter_fails_env False writing_store)) =
     [(0, Writing, Completed), (0, Completed, Failed)]"
  by (simp add: pipeline_defs counter_fails_env_def quiet_env_def writing_store_def
      lib_suggestLinks_text extract_links_text Let_def str_simps)

lemma createBatch_one:
  "createBatch [str ''kw''] =
     \<lparr>batch = \<lparr>total_keywords = 1, completed_keywords = 0, failed_keywords = 0,
                batch_status = BatchPending\<rparr>,
      jobs = [\<lparr>job_id = 0, keyword = str ''kw'', job_status = Pending, job_error = None,
               research_raw = None, research_analyzed = None, neuronwriter_data = None,
               created_at = 0\<rparr>],
      blogs = [], status_log = [], write_log = []\<rparr>"
  by (simp add: createBatch_def)

lemma one_job_three_steps:
  "map job_status (jobs (run False [quiet_env, quiet_env, quiet_env] (createBatch [str ''kw'']))) = [Completed]"
  "batch (run False [quiet_env, quiet_env, quiet_env] (createBatch [str ''kw''])) =
     \<lparr>total_keywords = 1, completed_keywords = 1, failed_keywords = 0, batch_status = Running\<rparr>"
  unfolding createBatch_one
  by (simp_all add: pipeline_defs quiet_env_def
      lib_suggestLinks_text extract_links_text Let_def str_simps)

lemma one_job_four_steps:
  "batch (run False [quiet_env, quiet_env, quiet_env, quiet_env] (createBatch [str ''kw''])) =
     \<lparr>total_keywords = 1, completed_keywords = 1, failed_keywords = 0, batch_status = BatchCompleted\<rparr>"
  unfolding createBatch_one
  by (simp add: pipeline_defs quiet_env_def
      lib_suggestLinks_text extract_links_text Let_def str_simps)

section \<open>What the operations of the store change\<close>

lemma rows_of_ids: "rows_of jid s = length (filter (\<lambda>i. i = jid) (map job_id (jobs s)))"
  by (simp add: rows_of_def filter_map comp_def)

lemma terminal_jobs_split: "terminal_jobs s = terminal_others jid s + terminal_of jid s"
proof -
  have "\<And>js. length (filter (\<lambda>j. terminal (job_status j)) js) =
      length (filter (\<lambda>j. job_id j \<noteq> jid \<and> terminal (job_status j)) js) +
      length (filter (\<lambda>j. job_id j = jid \<and> terminal (job_status j)) js)"
    subgoal for js by (induction js) auto
    done
  then show ?thesis by (simp add: terminal_jobs_def terminal_others_def terminal_of_def)
qed

lemma count_after_terminal:
  "terminal st \<Longrightarrow>
   length (filter (\<lambda>j. job_id j = jid \<and> terminal (job_status j))
       (map (\<lambda>j. if job_id j = jid then j\<lparr>job_status := st\<rparr> else j) js)) =
     length (filter (\<lambda>j. job_id j = jid) js)"
  by (induction js) auto

lemma count_after_nonterminal:
  "\<not> terminal st \<Longrightarrow>
   filter (\<lambda>j. job_id j = jid \<and> terminal (job_status j))
       (map (\<lambda>j. if job_id j = jid then j\<lparr>job_status := st\<rparr> else j) js) = []"
  by (induction js) auto

lemma set_status_simps:
  "batch (set_status jid st s) = batch s"
  "blogs (set_status jid st s) = blogs s"
  "write_log (set_status jid st s) = write_log s"
  "map job_id (jobs (set_status jid st s)) = map job_id (jobs s)"
  "terminal_others jid (set_status jid st s) = terminal_others jid s"
  "terminal_of jid (set_status jid st s) = (if terminal st then rows_of jid s else 0)"
  "rows_of jid (set_status jid st s) = rows_of jid s"
  "counted (set_status jid st s) = counted s"
proof -
  show "batch (set_status jid st s) = batch s" "blogs (set_status jid st s) = blogs s"
    "write_log (set_status jid st s) = write_log s" "counted (set_status jid st s) = counted s"
    by (simp_all add: set_status_def counted_def)
  show ids: "map job_id (jobs (set_status jid st s)) = map job_id (jobs s)"
    by (simp add: set_status_def comp_def cong: map_cong)
  show "rows_of jid (set_status jid st s) = rows_of jid s"
    by (simp add: rows_of_ids ids)
  have "\<And>js. length (filter (\<lambda>j. job_id j \<noteq> jid \<and> terminal (job_status j))
       (map (\<lambda>j. if job_id j = jid then j\<lparr>job_status := st\<rparr> else j) js)) =
     length (filter (\<lambda>j. job_id j \<noteq> jid \<and> terminal (job_status j)) js)"
    subgoal for js by (induction js) auto
    done
  then show "terminal_others jid (set_status jid st s) = terminal_others jid s"
    by (simp add: terminal_others_def set_status_def)
  show "terminal_of jid (set_status jid st s) = (if terminal st then rows_of jid s else 0)"
    unfolding terminal_of_def rows_of_def set_status_def
    using count_after_terminal [of st jid "jobs s"] count_after_nonterminal [of st jid "jobs s"]
    by simp
qed

lemma set_fields_simps:
  assumes "\<And>j. job_id (f j) = job_id j" "\<And>j. job_status (f j) = job_status j"
  shows "batch (set_fields jid f s) = batch s"
    "blogs (set_fields jid f s) = blogs s"
    "write_log (set_fields jid f s) = write_log s"
    "status_log (set_fields jid f s) = status_log s"
    "map job_id (jobs (set_fields jid f s)) = map job_id (jobs s)"
    "terminal_others jid (set_fields jid f s) = terminal_others jid s"
    "terminal_of jid (set_fields jid f s) = terminal_of jid s"
    "rows_of jid (set_fields jid f s) = rows_of jid s"
    "counted (set_fields jid f s) = counted s"
proof -
  show "batch (set_fields jid f s) = batch s" "blogs (set_fields jid f s) = blogs s"
    "write_log (set_fields jid f s) = write_log s" "counted (set_fields jid f s) = counted s"
    "status_log (set_fields jid f s) = status_log s"
    by (simp_all add: set_fields_def counted_def)
  show ids: "map job_id (jobs (set_fields jid f s)) = map job_id (jobs s)"
    using assms(1) by (simp add: set_fields_def comp_def cong: map_cong)
  show "rows_of jid (set_fields jid f s) = rows_of jid s"
    by (simp add: rows_of_ids ids)
  have "\<And>js. length (filter (\<lambda>j. job_id j \<noteq> jid \<and> terminal (job_status j))
       (map (\<lambda>j. if job_id j = jid then f j else j) js)) =
     length (filter (\<lambda>j. job_id j \<noteq> jid \<and> terminal (job_status j)) js)"
    subgoal for js using assms by (induction js) auto
    done
  then show "terminal_others jid (set_fields jid f s) = terminal_others jid s"
    by (simp add: terminal_others_def set_fields_def)
  have "\<And>js. length (filter (\<lambda>j. job_id j = jid \<and> terminal (job_status j))
       (map (\<lambda>j. if job_id j = jid then f j else j) js)) =
     length (filter (\<lambda>j. job_id j = jid \<and> terminal (job_status j)) js)"
    subgoal for js using assms by (induction js) auto
    done
  then show "terminal_of jid (set_fields jid f s) = terminal_of jid s"
    by (simp add: terminal_of_def set_fields_def)
qed

lemma frame_fields [simp]:
  "rows_of jid (s\<lparr>batch := b\<rparr>) = rows_of jid s"
  "rows_of jid (s\<lparr>blogs := bl\<rparr>) = rows_of jid s"
  "rows_of jid (s\<lparr>write_log := w\<rparr>) = rows_of jid s"
  "terminal_of jid (s\<lparr>batch := b\<rparr>) = terminal_of jid s"
  "terminal_of jid (s\<lparr>blogs := bl\<rparr>) = terminal_of jid s"
  "terminal_of jid (s\<lparr>write_log := w\<rparr>) = terminal_of jid s"
  "terminal_others jid (s\<lparr>batch := b\<rparr>) = terminal_others jid s"
  "terminal_others jid (s\<lparr>blogs := bl\<rparr>) = terminal_others jid s"
  "terminal_others jid (s\<lparr>write_log := w\<rparr>) = terminal_others jid s"
  "counted (s\<lparr>blogs := bl\<rparr>) = counted s"
  "counted (s\<lparr>write_log := w\<rparr>) = counted s"
  by (simp_all add: rows_of_def terminal_of_def terminal_others_def counted_def)

lemma same_frame_refl [simp]: "same_frame jid s s"
  by (simp add: same_frame_def)

lemma same_frame_trans: "same_frame jid s s1 \<Longrightarrow> same_frame jid s1 s2 \<Longrightarrow> same_frame jid s s2"
  by (simp add: same_frame_def)

lemma same_frame_rows: "same_frame jid s s' \<Longrightarrow> rows_of jid s' = rows_of jid s"
  by (simp add: same_frame_def rows_of_ids)

lemma same_frame_set_status [simp]: "same_frame jid s (set_status jid st s)"
  by (simp add: same_frame_def set_status_simps)

lemma updateJobStatus_effect:
  assumes "updateJobStatus env site jid st err s = Inr s'"
  shows "same_frame jid s s'" "counted s' = counted s"
    "terminal_of jid s' = (if terminal st then rows_of jid s else 0)"
    "blogs s' = blogs s" "write_log s' = write_log s"
  using assms
  by (auto simp: updateJobStatus_def same_frame_def set_status_simps set_fields_simps
      split: option.splits)

lemma incrementBatchProgress_effect:
  assumes "incrementBatchProgress env r w field s = Inr s'"
  shows "same_frame jid s s'" "counted s' = counted s + 1"
    "terminal_of jid s' = terminal_of jid s" "rows_of jid s' = rows_of jid s"
    "blogs s' = blogs s" "write_log s' = write_log s"
  using assms
  by (cases field; auto simp: incrementBatchProgress_def same_frame_def counted_def Let_def
      terminal_others_def terminal_of_def rows_of_def split: option.splits)+

lemma saveBlog_effect:
  assumes "saveBlog env jid kw t c m sc s = Inr s'"
  shows "same_frame jid' s s'" "counted s' = counted s"
    "terminal_of jid' s' = terminal_of jid' s" "rows_of jid' s' = rows_of jid' s"
    "write_log s' = write_log s"
  using assms
  by (auto simp: saveBlog_def same_frame_def Let_def split: option.splits)

lemma generate_store:
  "\<exists>l. snd (generate env sg job brief nd s) = s\<lparr>write_log := l\<rparr>"
  by (auto simp: generate_def call_writeBlog_def Let_def split: sum.splits option.splits)

lemma generate_effect:
  assumes "generate env sg job brief nd s = (r, s')"
  shows "same_frame jid s s'" "counted s' = counted s"
    "terminal_of jid s' = terminal_of jid s" "rows_of jid s' = rows_of jid s"
    "blogs s' = blogs s"
proof -
  obtain l where "s' = s\<lparr>write_log := l\<rparr>" using generate_store [of env sg job brief nd s] assms
    by auto
  then show "same_frame jid s s'" "counted s' = counted s"
    "terminal_of jid s' = terminal_of jid s" "rows_of jid s' = rows_of jid s"
    "blogs s' = blogs s"
    by (simp_all add: same_frame_def)
qed

section \<open>What the stage handlers change\<close>

lemma setJobError_effect:
  assumes "setJobError env site jid m s = Inr s'"
  shows "same_frame jid s s'" "counted s' = counted s" "terminal_of jid s' = rows_of jid s'"
proof -
  have u: "updateJobStatus env site jid Failed (Some m) s = Inr s'"
    using assms by (simp add: setJobError_def)
  show f: "same_frame jid s s'" and "counted s' = counted s"
    using updateJobStatus_effect(1,2) [OF u] by simp_all
  show "terminal_of jid s' = rows_of jid s'"
    using updateJobStatus_effect(3) [OF u] same_frame_rows [OF f] by (simp add: terminal_def)
qed

lemma research_try_effect:
  assumes "research_try env job s = (r, s')"
  shows "same_frame (job_id job) s s'" "counted s' = counted s"
  using assms
  by (auto simp: research_try_def same_frame_def set_status_simps set_fields_simps
      split: sum.splits option.splits)

lemma doResearchStep_effect:
  assumes "doResearchStep env job s = (r, s')"
  shows "same_frame (job_id job) s s' \<and> counted s' = counted s"
proof (cases "updateJobStatus env MarkResearching (job_id job) Researching None s")
  case (Inl e)
  then show ?thesis using assms by (simp add: doResearchStep_def)
next
  case (Inr s1)
  note e1 = updateJobStatus_effect(1,2) [OF Inr]
  obtain r2 s2 where t: "research_try env job s1 = (r2, s2)" by (cases "research_try env job s1")
  note e2 = research_try_effect [OF t]
  have f2: "same_frame (job_id job) s s2" by (rule same_frame_trans [OF e1(1) e2(1)])
  show ?thesis
  proof (cases r2)
    case None
    then show ?thesis using assms Inr t f2 e1 e2 by (simp add: doResearchStep_def)
  next
    case (Some e)
    show ?thesis
    proof (cases "setJobError env FailResearch (job_id job) (message e) s2")
      case (Inl e')
      then show ?thesis using assms Inr t Some f2 e1 e2 by (simp add: doResearchStep_def)
    next
      case (Inr s3)
      note e3 = setJobError_effect [OF Inr]
      have "s' = s3" using assms \<open>updateJobStatus env MarkResearching (job_id job) Researching None s = Inr s1\<close> t Some Inr
        by (simp add: doResearchStep_def)
      moreover have "same_frame (job_id job) s s3" by (rule same_frame_trans [OF f2 e3(1)])
      ultimately show ?thesis using e1(2) e2(2) e3(2) by simp
    qed
  qed
qed

lemma analyze_try_effect:
  assumes "analyze_try env job u s = (r, s')"
  shows "same_frame (job_id job) s s'" "counted s' = counted s"
  using assms
  by (auto simp: analyze_try_def same_frame_def set_status_simps set_fields_simps Let_def
      split: sum.splits option.splits if_splits)

lemma doAnalyzeStep_effect:
  assumes "doAnalyzeStep env job u s = (r, s')"
  shows "same_frame (job_id job) s s' \<and> counted s' = counted s"
proof -
  obtain r1 s1 where t: "analyze_try env job u s = (r1, s1)" by (cases "analyze_try env job u s")
  note e1 = analyze_try_effect [OF t]
  show ?thesis
  proof (cases r1)
    case None
    then show ?thesis using assms t e1 by (simp add: doAnalyzeStep_def)
  next
    case (Some e)
    show ?thesis
    proof (cases "setJobError env FailAnalysis (job_id job) (message e) s1")
      case (Inl e')
      then show ?thesis using assms t Some e1 by (simp add: doAnalyzeStep_def)
    next
      case (Inr s2)
      note e2 = setJobError_effect [OF Inr]
      have "s' = s2" using assms t Some Inr by (simp add: doAnalyzeStep_def)
      moreover have "same_frame (job_id job) s s2" by (rule same_frame_trans [OF e1(1) e2(1)])
      ultimately show ?thesis using e1(2) e2(2) by simp
    qed
  qed
qed

lemma write_try_effect:
  assumes "write_try env job s = (r, s')"
  shows "same_frame (job_id job) s s' \<and>
         (case r of None \<Rightarrow> counted s' = counted s + 1 \<and>
                              terminal_of (job_id job) s' = rows_of (job_id job) s'
                  | Some e \<Rightarrow> counted s' = counted s)"
proof (cases "select_job (job_id job) s")
  case None
  then show ?thesis using assms by (auto simp: write_try_def)
next
  case (Some jobData)
  show ?thesis
  proof (cases "falsy (research_analyzed jobData)")
    case True
    then show ?thesis using assms Some by (auto simp: write_try_def)
  next
    case False
    obtain g s1 where g: "generate env lib_suggestLinks job (the (research_analyzed jobData))
        (neuronwriter_data jobData) s = (g, s1)"
      by (cases "generate env lib_suggestLinks job (the (research_analyzed jobData))
        (neuronwriter_data jobData) s")
    note e1 = generate_effect [OF g]
    show ?thesis
    proof (cases g)
      case (Inl e)
      then show ?thesis using assms Some False g e1 by (auto simp: write_try_def)
    next
      case (Inr res)
      obtain blogResult content sc where res: "res = (blogResult, content, sc)" by (cases res)
      show ?thesis
      proof (cases "saveBlog env (job_id job) (keyword job) (br_title blogResult) content
                         (br_metaDescription blogResult) sc s1")
        case (Inl e)
        then show ?thesis using assms Some False g Inr res e1 by (auto simp: write_try_def)
      next
        case sb: (Inr s2)
        note e2 = saveBlog_effect [OF sb]
        have f2: "same_frame (job_id job) s s2" "counted s2 = counted s"
          using e1(2) e2(2) by (auto intro: same_frame_trans [OF e1(1) e2(1)])
        show ?thesis
        proof (cases "updateJobStatus env MarkCompleted (job_id job) Completed None s2")
          case (Inl e)
          then show ?thesis using assms Some False g Inr res sb f2 by (auto simp: write_try_def)
        next
          case mc: (Inr s3)
          note e3 = updateJobStatus_effect [OF mc]
          have f3: "same_frame (job_id job) s s3" "counted s3 = counted s"
            using f2(2) e3(2) by (auto intro: same_frame_trans [OF f2(1) e3(1)])
          have t3: "terminal_of (job_id job) s3 = rows_of (job_id job) s3"
            using e3(3) same_frame_rows [OF e3(1)] by (simp add: terminal_def)
          show ?thesis
          proof (cases "incrementBatchProgress env ReadCompletedCount
                                   WriteCompletedCount completed_keywords_field s3")
            case (Inl e)
            then show ?thesis using assms Some False g Inr res sb mc f3
              by (auto simp: write_try_def)
          next
            case ic: (Inr s4)
            note e4 = incrementBatchProgress_effect [OF ic]
            have "s' = s4" "r = None" using assms Some False g Inr res sb mc ic
              by (auto simp: write_try_def)
            moreover have "same_frame (job_id job) s s4"
              by (rule same_frame_trans [OF f3(1) e4(1)])
            ultimately show ?thesis using f3(2) t3 e4(2,3,4) by simp
          qed
        qed
      qed
    qed
  qed
qed

lemma doWriteStep_effect:
  assumes "doWriteStep env job s = (r, s')"
  shows "same_frame (job_id job) s s' \<and> counted_with_job (job_id job) s s'"
proof -
  obtain r1 s1 where t: "write_try env job s = (r1, s1)" by (cases "write_try env job s")
  note e1 = write_try_effect [OF t]
  show ?thesis
  proof (cases r1)
    case None
    then show ?thesis using assms t e1 by (auto simp: doWriteStep_def counted_with_job_def)
  next
    case (Some e)
    then have c1: "counted s1 = counted s" and f1: "same_frame (job_id job) s s1"
      using e1 by auto
    show ?thesis
    proof (cases "setJobError env FailWrite (job_id job) (message e) s1")
      case (Inl e')
      then show ?thesis using assms t Some c1 f1
        by (auto simp: doWriteStep_def counted_with_job_def)
    next
      case sj: (Inr s2)
      note e2 = setJobError_effect [OF sj]
      have f2: "same_frame (job_id job) s s2" by (rule same_frame_trans [OF f1 e2(1)])
      show ?thesis
      proof (cases "incrementBatchProgress env ReadFailedCount WriteFailedCount
                       failed_keywords_field s2")
        case (Inl e')
        then show ?thesis using assms t Some sj c1 f2 e2
          by (auto simp: doWriteStep_def counted_with_job_def)
      next
        case ic: (Inr s3)
        note e3 = incrementBatchProgress_effect [OF ic]
        have "s' = s3" using assms t Some sj ic by (auto simp: doWriteStep_def)
        moreover have "same_frame (job_id job) s s3"
          by (rule same_frame_trans [OF f2 e3(1)])
        ultimately show ?thesis using c1 e2(2,3) e3(2,3,4)
          by (simp add: counted_with_job_def)
      qed
    qed
  qed
qed

section \<open>The invariant of the store\<close>

lemma query_jobs_member:
  "j \<in> set (query_jobs sts s) \<Longrightarrow> j \<in> set (jobs s) \<and> job_status j \<in> set sts"
proof -
  assume "j \<in> set (query_jobs sts s)"
  then have "j \<in> set (sort_key created_at (filter (\<lambda>j. job_status j \<in> set sts) (jobs s)))"
    unfolding query_jobs_def by (rule in_set_takeD)
  then show ?thesis by simp
qed

lemma getNextJobToProcess_Some:
  assumes "getNextJobToProcess env s = Some j"
  shows "j \<in> set (jobs s)" "\<not> terminal (job_status j)"
proof -
  have "j \<in> set (query_jobs [Researching, Analyzing, Writing] s) \<or> j \<in> set (query_jobs [Pending] s)"
    using assms
    by (auto simp: getNextJobToProcess_def select_jobs_def Let_def split: if_splits option.splits)
  then have "j \<in> set (jobs s) \<and> job_status j \<in> {Researching, Analyzing, Writing, Pending}"
    using query_jobs_member by fastforce
  then show "j \<in> set (jobs s)" "\<not> terminal (job_status j)" by (auto simp: terminal_def)
qed

lemma all_terminal_None:
  assumes "\<forall>j\<in>set (jobs s). terminal (job_status j)"
  shows "getNextJobToProcess env s = None"
proof -
  have "\<not> (\<exists>j\<in>set (jobs s). in_progress (job_status j))"
    "\<not> (\<exists>j\<in>set (jobs s). job_status j = Pending)"
    using assms by (auto simp: terminal_def in_progress_def)
  then show ?thesis using getNextJobToProcess_cases [of env s] by blast
qed

lemma rows_of_distinct:
  "distinct (map job_id (jobs s)) \<Longrightarrow> j \<in> set (jobs s) \<Longrightarrow> rows_of (job_id j) s = 1"
proof -
  have "\<And>js. distinct (map job_id js) \<Longrightarrow> j \<in> set js \<Longrightarrow>
      length (filter (\<lambda>k. job_id k = job_id j) js) = 1"
    subgoal for js
    proof (induction js)
      case Nil
      then show ?case by simp
    next
      case (Cons a js)
      show ?case
      proof (cases "job_id a = job_id j")
        case True
        then have "job_id j \<notin> job_id ` set js" using Cons.prems(1) by simp
        then have "\<forall>k\<in>set js. job_id k \<noteq> job_id j" by (metis imageI)
        then have "filter (\<lambda>k. job_id k = job_id j) js = []" by (simp add: filter_empty_conv)
        then show ?thesis using True by simp
      next
        case False
        then have "j \<in> set js" using Cons.prems(2) by auto
        then show ?thesis using False Cons by simp
      qed
    qed
    done
  then show "distinct (map job_id (jobs s)) \<Longrightarrow> j \<in> set (jobs s) \<Longrightarrow> rows_of (job_id j) s = 1"
    by (simp add: rows_of_def)
qed

lemma terminal_of_distinct:
  assumes "distinct (map job_id (jobs s))" "j \<in> set (jobs s)" "\<not> terminal (job_status j)"
  shows "terminal_of (job_id j) s = 0"
proof -
  have "\<forall>k\<in>set (jobs s). job_id k = job_id j \<longrightarrow> k = j"
    using assms(1,2) by (meson distinct_map inj_onD)
  then have "\<forall>k\<in>set (jobs s). \<not> (job_id k = job_id j \<and> terminal (job_status k))"
    using assms(3) by auto
  then show ?thesis by (simp add: terminal_of_def filter_empty_conv)
qed

text \<open>The invariant without the part about the batch status.\<close>

lemma handler_keeps_counts:
  assumes d: "distinct (map job_id (jobs s))" and t: "total_keywords (batch s) = length (jobs s)"
    and c: "counted s \<le> terminal_jobs s"
    and j: "j \<in> set (jobs s)" "\<not> terminal (job_status j)"
    and f: "same_frame (job_id j) s s'" and cw: "counted_with_job (job_id j) s s'"
  shows "distinct (map job_id (jobs s')) \<and> total_keywords (batch s') = length (jobs s') \<and>
         counted s' \<le> terminal_jobs s' \<and> batch_status (batch s') = batch_status (batch s)"
proof -
  have ids: "map job_id (jobs s') = map job_id (jobs s)" using f by (simp add: same_frame_def)
  then have len: "length (jobs s') = length (jobs s)" by (metis length_map)
  have k: "terminal_others (job_id j) s' = terminal_others (job_id j) s"
    using f by (simp add: same_frame_def)
  have r: "rows_of (job_id j) s' = 1" using same_frame_rows [OF f] rows_of_distinct [OF d j(1)] by simp
  have m0: "terminal_of (job_id j) s = 0" by (rule terminal_of_distinct [OF d j])
  have "counted s' \<le> terminal_jobs s'"
    using cw c k r m0
    unfolding counted_with_job_def terminal_jobs_split [of s "job_id j"]
      terminal_jobs_split [of s' "job_id j"]
    by auto
  then show ?thesis using ids len d t f by (simp add: same_frame_def)
qed

lemma store_inv_running:
  assumes "distinct (map job_id (jobs s))" "total_keywords (batch s) = length (jobs s)"
    "counted s \<le> terminal_jobs s" "batch_status (batch s) = Running"
  shows "store_inv s"
  using assms by (simp add: store_inv_def)

lemma filter_all_iff: "length (filter P xs) = length xs \<longleftrightarrow> (\<forall>x\<in>set xs. P x)"
  by (metis filter_id_conv length_filter_less less_irrefl filter_True)

lemma count_completed_failed:
  assumes "\<forall>j\<in>set js. terminal (job_status j)"
  shows "length (filter (\<lambda>j. job_status j = Completed) js) +
         length (filter (\<lambda>j. job_status j = Failed) js) = length js"
  using assms by (induction js) (auto simp: terminal_def)

lemma count_completed_failed_le:
  "length (filter (\<lambda>j. job_status j = Completed) js) +
   length (filter (\<lambda>j. job_status j = Failed) js) \<le> length js"
  by (induction js) auto

lemma counted_all_terminal:
  assumes "length (filter (\<lambda>j. job_status j = Completed) js) +
           length (filter (\<lambda>j. job_status j = Failed) js) = length js"
  shows "\<forall>j\<in>set js. terminal (job_status j)"
  using assms
proof (induction js)
  case Nil
  then show ?case by simp
next
  case (Cons a js)
  then show ?case
    using count_completed_failed_le [of js]
    by (auto simp: terminal_def split: if_splits)
qed

lemma finish_batch_inv:
  assumes d: "distinct (map job_id (jobs s))" and t: "total_keywords (batch s) = length (jobs s)"
    and c: "counted s \<le> terminal_jobs s" and st: "batch_status (batch s) = Running"
  shows "store_inv (snd (finish_batch env s))"
proof (cases "getJobsForBatch env s")
  case (Inl e)
  then show ?thesis using store_inv_running [OF d t c st] by (simp add: finish_batch_def)
next
  case (Inr js)
  then have js: "js = sort_key created_at (jobs s)"
    by (auto simp: getJobsForBatch_def split: option.splits)
  then have sj: "set js = set (jobs s)" by simp
  show ?thesis
  proof (cases "length (filter (\<lambda>j. job_status j = Completed) js) +
         length (filter (\<lambda>j. job_status j = Failed) js) = length js")
    case False
    then show ?thesis using Inr store_inv_running [OF d t c st]
      by (simp add: finish_batch_def Let_def)
  next
    case sum: True
    have tm: "\<forall>j\<in>set (jobs s). terminal (job_status j)"
      using counted_all_terminal [OF sum] sj by simp
    have allf: "length (filter (\<lambda>j. job_status j = Failed) js) = length js \<longleftrightarrow>
        (\<forall>j\<in>set (jobs s). job_status j = Failed)"
      using filter_all_iff [of "\<lambda>j. job_status j = Failed" js] sj by simp
    show ?thesis
    proof (cases "updateBatchStatus env UpdateBatchFinal
         (if length (filter (\<lambda>j. job_status j = Failed) js) = length js
          then BatchFailed else BatchCompleted) s")
      case (Inl e)
      then show ?thesis using Inr sum store_inv_running [OF d t c st]
        by (simp add: finish_batch_def Let_def)
    next
      case upd: (Inr s1)
      then have s1: "s1 = s\<lparr>batch := (batch s)\<lparr>batch_status :=
          (if length (filter (\<lambda>j. job_status j = Failed) js) = length js
           then BatchFailed else BatchCompleted)\<rparr>\<rparr>"
        by (auto simp: updateBatchStatus_def split: option.splits)
      have "snd (finish_batch env s) = s1" using Inr sum upd
        by (simp add: finish_batch_def Let_def)
      moreover have "store_inv s1"
        unfolding s1 using d t c tm allf
        by (auto simp: store_inv_def counted_def terminal_jobs_def)
      ultimately show ?thesis by simp
    qed
  qed
qed

lemma processOneStep_inv:
  assumes "store_inv s"
  shows "store_inv (snd (processOneStep env u s))"
proof (cases "updateBatchStatus env UpdateBatchRunning Running s")
  case (Inl e)
  then show ?thesis using assms by (simp add: processOneStep_def caught_def)
next
  case (Inr s1)
  then have s1: "s1 = s\<lparr>batch := (batch s)\<lparr>batch_status := Running\<rparr>\<rparr>"
    by (auto simp: updateBatchStatus_def split: option.splits)
  have d: "distinct (map job_id (jobs s1))" and t: "total_keywords (batch s1) = length (jobs s1)"
    and c: "counted s1 \<le> terminal_jobs s1" and st: "batch_status (batch s1) = Running"
    using assms unfolding s1 by (simp_all add: store_inv_def counted_def terminal_jobs_def)
  have snd_caught: "\<And>r. snd (caught r) = snd r"
    by (auto simp: caught_def split: prod.splits sum.splits)
  show ?thesis
  proof (cases "getNextJobToProcess env s1")
    case None
    have "snd (processOneStep env u s) = snd (finish_batch env s1)"
      using Inr None by (simp add: processOneStep_def snd_caught)
    then show ?thesis
      using finish_batch_inv [OF d t c st] by simp
  next
    case (Some job)
    note j = getNextJobToProcess_Some [OF Some]
    define r where "r = (case job_status job of
                    Pending \<Rightarrow> doResearchStep env job s1
                  | Researching \<Rightarrow> doResearchStep env job s1
                  | Analyzing \<Rightarrow> doAnalyzeStep env job u s1
                  | Writing \<Rightarrow> doWriteStep env job s1
                  | _ \<Rightarrow> (Inr \<lparr>result_status = no_work, result_jobId = Some (job_id job),
                            step = None, nextStep = None, batchComplete = False,
                            result_error = None\<rparr>, s1))"
    have res: "snd (processOneStep env u s) = snd r"
      using Inr Some by (simp add: processOneStep_def snd_caught r_def)
    have "same_frame (job_id job) s1 (snd r) \<and> counted_with_job (job_id job) s1 (snd r)"
    proof (cases "job_status job")
      case Pending
      then show ?thesis
        using doResearchStep_effect [of env job s1 "fst r" "snd r"]
        by (simp add: r_def counted_with_job_def)
    next
      case Researching
      then show ?thesis
        using doResearchStep_effect [of env job s1 "fst r" "snd r"]
        by (simp add: r_def counted_with_job_def)
    next
      case Analyzing
      then show ?thesis
        using doAnalyzeStep_effect [of env job u s1 "fst r" "snd r"]
        by (simp add: r_def counted_with_job_def)
    next
      case Writing
      then show ?thesis
        using doWriteStep_effect [of env job s1 "fst r" "snd r"]
        by (simp add: r_def)
    next
      case Completed
      then show ?thesis by (simp add: r_def counted_with_job_def)
    next
      case Failed
      then show ?thesis by (simp add: r_def counted_with_job_def)
    qed
    then have "distinct (map job_id (jobs (snd r))) \<and>
        total_keywords (batch (snd r)) = length (jobs (snd r)) \<and>
        counted (snd r) \<le> terminal_jobs (snd r) \<and>
        batch_status (batch (snd r)) = batch_status (batch s1)"
      using handler_keeps_counts [OF d t c j] by blast
    then show ?thesis unfolding res using st store_inv_running by simp
  qed
qed

lemma getNextJobToProcess_batch:
  "getNextJobToProcess env (s\<lparr>batch := b\<rparr>) = getNextJobToProcess env s"
proof -
  have "\<And>sts. query_jobs sts (s\<lparr>batch := b\<rparr>) = query_jobs sts s"
    by (simp add: query_jobs_def)
  then have sj: "\<And>site sts. select_jobs env site sts (s\<lparr>batch := b\<rparr>) =
      select_jobs env site sts s"
    by (simp add: select_jobs_def split: option.splits)
  show ?thesis unfolding getNextJobToProcess_def sj by (rule refl)
qed

lemma step_on_job_stays_running:
  assumes ok: "db_error env UpdateBatchRunning = None"
    and sel: "getNextJobToProcess env s = Some job"
  shows "batch_status (batch (snd (processOneStep env u s))) = Running"
proof -
  define s1 where "s1 = s\<lparr>batch := (batch s)\<lparr>batch_status := Running\<rparr>\<rparr>"
  have u1: "updateBatchStatus env UpdateBatchRunning Running s = Inr s1"
    using ok by (simp add: updateBatchStatus_def s1_def)
  have sel1: "getNextJobToProcess env s1 = Some job"
    using sel by (simp add: s1_def getNextJobToProcess_batch)
  have snd_caught: "\<And>r. snd (caught r) = snd r"
    by (auto simp: caught_def split: prod.splits sum.splits)
  define r where "r = (case job_status job of
                  Pending \<Rightarrow> doResearchStep env job s1
                | Researching \<Rightarrow> doResearchStep env job s1
                | Analyzing \<Rightarrow> doAnalyzeStep env job u s1
                | Writing \<Rightarrow> doWriteStep env job s1
                | _ \<Rightarrow> (Inr \<lparr>result_status = no_work, result_jobId = Some (job_id job),
                          step = None, nextStep = None, batchComplete = False,
                          result_error = None\<rparr>, s1))"
  have res: "snd (processOneStep env u s) = snd r"
    using u1 sel1 by (simp add: processOneStep_def snd_caught r_def)
  have "same_frame (job_id job) s1 (snd r)"
  proof (cases "job_status job")
    case Pending
    then show ?thesis
      using doResearchStep_effect [of env job s1 "fst r" "snd r"] by (simp add: r_def)
  next
    case Researching
    then show ?thesis
      using doResearchStep_effect [of env job s1 "fst r" "snd r"] by (simp add: r_def)
  next
    case Analyzing
    then show ?thesis
      using doAnalyzeStep_effect [of env job u s1 "fst r" "snd r"] by (simp add: r_def)
  next
    case Writing
    then show ?thesis
      using doWriteStep_effect [of env job s1 "fst r" "snd r"] by (simp add: r_def)
  next
    case Completed
    then show ?thesis by (simp add: r_def)
  next
    case Failed
    then show ?thesis by (simp add: r_def)
  qed
  then show ?thesis by (simp add: res same_frame_def s1_def)
qed

lemma run_inv: "store_inv s \<Longrightarrow> store_inv (run u envs s)"
  by (induction envs arbitrary: s) (simp_all add: processOneStep_inv)

lemma createBatch_inv: "store_inv (createBatch keywords)"
proof -
  have "map job_id (jobs (createBatch keywords)) = [0..<length keywords]"
    by (simp add: createBatch_def comp_def map_idI)
  then show ?thesis
    by (simp add: store_inv_def) (simp add: createBatch_def counted_def)
qed

lemma reachable_inv: "store_inv (run u envs (createBatch keywords))"
  by (rule run_inv [OF createBatch_inv])

lemma terminal_jobs_le: "terminal_jobs s \<le> length (jobs s)"
  by (simp add: terminal_jobs_def)

lemma finalised_next:
  assumes tm: "\<forall>j\<in>set (jobs s). terminal (job_status j)"
    and ok: "db_error env UpdateBatchRunning = None" "db_error env GetJobs = None"
      "db_error env UpdateBatchFinal = None"
  shows "batch_status (batch (snd (processOneStep env u s))) =
     (if (\<forall>j\<in>set (jobs s). job_status j = Failed) then BatchFailed else BatchCompleted)"
proof -
  define s1 where "s1 = s\<lparr>batch := (batch s)\<lparr>batch_status := Running\<rparr>\<rparr>"
  have u1: "updateBatchStatus env UpdateBatchRunning Running s = Inr s1"
    using ok by (simp add: updateBatchStatus_def s1_def)
  have n: "getNextJobToProcess env s1 = None"
    by (rule all_terminal_None) (use tm in \<open>simp add: s1_def\<close>)
  define js where "js = sort_key created_at (jobs s1)"
  have sj: "set js = set (jobs s)" by (simp add: js_def s1_def)
  have sum: "length (filter (\<lambda>j. job_status j = Completed) js) +
         length (filter (\<lambda>j. job_status j = Failed) js) = length js"
    by (rule count_completed_failed) (use tm sj in simp)
  have allf: "length (filter (\<lambda>j. job_status j = Failed) js) = length js \<longleftrightarrow>
      (\<forall>j\<in>set (jobs s). job_status j = Failed)"
    using filter_all_iff [of "\<lambda>j. job_status j = Failed" js] sj by simp
  have "snd (finish_batch env s1) = s1\<lparr>batch := (batch s1)\<lparr>batch_status :=
        (if length (filter (\<lambda>j. job_status j = Failed) js) = length js
         then BatchFailed else BatchCompleted)\<rparr>\<rparr>"
    using ok sum by (simp add: finish_batch_def getJobsForBatch_def updateBatchStatus_def
        js_def [symmetric] Let_def)
  moreover have "snd (processOneStep env u s) = snd (finish_batch env s1)"
    using u1 n by (auto simp: processOneStep_def caught_def split: prod.splits sum.splits)
  ultimately show ?thesis using allf by simp
qed

section \<open>Properties of the job status\<close>

text \<open>
  C7 (no status change of a completed job), on the library's Write stage: a job in the
  Write stage whose blog is saved and whose status is written as \<open>completed\<close> is written
  as \<open>failed\<close> in the same invocation when the store then fails to write the counter of
  completed keywords.
\<close>

theorem completed_job_is_set_to_failed:
  "status_log (snd (processOneStep counter_fails_env False writing_store)) =
     [(0, Writing, Completed), (0, Completed, Failed)]"
  by (rule write_fails_after_completion)

section \<open>Properties of the batch\<close>

text \<open>
  C8 as the claim states it fails after the third invocation on a batch of one keyword:
  the job is completed, the counters add up to the total, and the batch is still
  \<open>running\<close>.
\<close>

theorem last_job_done_batch_still_running:
  "terminal_jobs (run False [quiet_env, quiet_env, quiet_env] (createBatch [str ''kw''])) =
     total_keywords (batch (run False [quiet_env, quiet_env, quiet_env] (createBatch [str ''kw'']))) \<and>
   completed_keywords (batch (run False [quiet_env, quiet_env, quiet_env] (createBatch [str ''kw'']))) +
   failed_keywords (batch (run False [quiet_env, quiet_env, quiet_env] (createBatch [str ''kw''])))  =
     total_keywords (batch (run False [quiet_env, quiet_env, quiet_env] (createBatch [str ''kw'']))) \<and>
   batch_status (batch (run False [quiet_env, quiet_env, quiet_env] (createBatch [str ''kw'']))) = Running"
proof -
  define s where "s = run False [quiet_env, quiet_env, quiet_env] (createBatch [str ''kw''])"
  have st: "map job_status (jobs s) = [Completed]"
    and b: "batch s = \<lparr>total_keywords = 1, completed_keywords = 1, failed_keywords = 0,
                        batch_status = Running\<rparr>"
    unfolding s_def by (rule one_job_three_steps)+
  have "terminal_jobs s = length (filter terminal (map job_status (jobs s)))"
    by (simp add: terminal_jobs_def filter_map comp_def)
  then have "terminal_jobs s = 1" by (simp add: st terminal_def)
  then show ?thesis unfolding s_def [symmetric] by (simp add: b)
qed

text \<open>
  C8, amended. In every state reached by invocations of the dispatcher from a freshly
  created batch, the two counters together are at most the total; when the batch status
  is \<open>failed\<close> all jobs have failed, and when it is \<open>completed\<close> all jobs are terminal and
  not all of them failed. The status is set by an invocation that finds every job
  terminal: when the store has no error at its three calls, that invocation sets \<open>failed\<close>
  if all jobs failed and \<open>completed\<close> otherwise. An invocation that selects a job, the
  one that finishes the last job included, leaves the batch \<open>running\<close>.
\<close>

theorem batch_counters_and_terminal_status:
  assumes "s = run useNeuronwriter envs (createBatch keywords)"
  shows "completed_keywords (batch s) + failed_keywords (batch s) \<le> total_keywords (batch s) \<and>
    (batch_status (batch s) = BatchFailed \<longrightarrow> (\<forall>j\<in>set (jobs s). job_status j = Failed)) \<and>
    (batch_status (batch s) = BatchCompleted \<longrightarrow>
       (\<forall>j\<in>set (jobs s). terminal (job_status j)) \<and>
       \<not> (\<forall>j\<in>set (jobs s). job_status j = Failed)) \<and>
    ((\<forall>j\<in>set (jobs s). terminal (job_status j)) \<and>
     db_error env UpdateBatchRunning = None \<and> db_error env GetJobs = None \<and>
     db_error env UpdateBatchFinal = None \<longrightarrow>
       batch_status (batch (snd (processOneStep env useNeuronwriter s))) =
         (if (\<forall>j\<in>set (jobs s). job_status j = Failed) then BatchFailed else BatchCompleted)) \<and>
    (db_error env UpdateBatchRunning = None \<and> getNextJobToProcess env s \<noteq> None \<longrightarrow>
       batch_status (batch (snd (processOneStep env useNeuronwriter s))) = Running)"
proof -
  have inv: "store_inv s" unfolding assms by (rule reachable_inv)
  then have "counted s \<le> terminal_jobs s" "total_keywords (batch s) = length (jobs s)"
    by (simp_all add: store_inv_def)
  then have "counted s \<le> total_keywords (batch s)"
    using terminal_jobs_le [of s] by simp
  then have le: "completed_keywords (batch s) + failed_keywords (batch s) \<le> total_keywords (batch s)"
    by (simp add: counted_def)
  have f: "batch_status (batch s) = BatchFailed \<longrightarrow> (\<forall>j\<in>set (jobs s). job_status j = Failed)"
    using inv by (simp add: store_inv_def)
  have c: "batch_status (batch s) = BatchCompleted \<longrightarrow>
       (\<forall>j\<in>set (jobs s). terminal (job_status j)) \<and>
       \<not> (\<forall>j\<in>set (jobs s). job_status j = Failed)"
    using inv by (simp add: store_inv_def)
  have n: "(\<forall>j\<in>set (jobs s). terminal (job_status j)) \<and>
     db_error env UpdateBatchRunning = None \<and> db_error env GetJobs = None \<and>
     db_error env UpdateBatchFinal = None \<longrightarrow>
       batch_status (batch (snd (processOneStep env useNeuronwriter s))) =
         (if (\<forall>j\<in>set (jobs s). job_status j = Failed) then BatchFailed else BatchCompleted)"
    using finalised_next [of s env useNeuronwriter] by blast
  have r: "db_error env UpdateBatchRunning = None \<and> getNextJobToProcess env s \<noteq> None \<longrightarrow>
       batch_status (batch (snd (processOneStep env useNeuronwriter s))) = Running"
    using step_on_job_stays_running [of env s _ useNeuronwriter] by blast
  from le f c n r show ?thesis by blast
qed

theorem batch_counters_and_terminal_status_witness:
  "completed_keywords (batch (run False [quiet_env, quiet_env, quiet_env] (createBatch [str ''kw'']))) +
   failed_keywords (batch (run False [quiet_env, quiet_env, quiet_env] (createBatch [str ''kw'']))) \<le>
     total_keywords (batch (run False [quiet_env, quiet_env, quiet_env] (createBatch [str ''kw'']))) \<and>
   batch_status (batch (snd (processOneStep quiet_env False
       (run False [quiet_env, quiet_env, quiet_env] (createBatch [str ''kw'']))))) = BatchCompleted"
proof -
  define s where "s = run False [quiet_env, quiet_env, quiet_env] (createBatch [str ''kw''])"
  have "map job_status (jobs s) = [Completed]"
    unfolding s_def by (rule one_job_three_steps)
  then obtain j where j: "jobs s = [j]" "job_status j = Completed" by auto
  have q: "db_error quiet_env UpdateBatchRunning = None" "db_error quiet_env GetJobs = None"
    "db_error quiet_env UpdateBatchFinal = None"
    by (simp_all add: quiet_env_def)
  show ?thesis
    using batch_counters_and_terminal_status [OF s_def, of quiet_env] j q
    unfolding s_def [symmetric] by (simp add: terminal_def)
qed

section \<open>Properties of the job selection\<close>

text \<open>
  C9, as stated, fails when the query for the jobs in progress fails. In \<open>resumed_store\<close>
  the second job is in \<open>analyzing\<close>; the failed query counts as one without rows, and both
  the library and the handler of the edge function select the first job, which is
  pending.
\<close>

theorem failed_query_starts_pending_job:
  "map job_status (jobs resumed_store) = [Pending, Analyzing, Pending] \<and>
   db_error first_query_fails_env SelectInProgress = Some (str ''timeout'') \<and>
   map_option job_id (getNextJobToProcess first_query_fails_env resumed_store) = Some 0 \<and>
   map_option job_id (handler_select_job first_query_fails_env resumed_store) = Some 0"
  by (simp add: getNextJobToProcess_def handler_select_job_def select_jobs_def query_jobs_def
      first_query_fails_env_def quiet_env_def resumed_store_def)

text \<open>
  C9, amended. The library's \<open>getNextJobToProcess\<close> and the selection in the edge function's
  handler give the same job. When the query for the jobs in \<open>researching\<close>, \<open>analyzing\<close> or
  \<open>writing\<close> answers and there is such a job, the selected job is one of them and none of
  them was created earlier. When that query fails or there is no such job, and the query
  for the pending jobs answers and there is a pending job, the selected job is pending and
  no pending job was created earlier. When neither query gives a job, because it fails or
  because there is no job of its kind, no job is selected.
\<close>

theorem job_selection_by_query_outcome:
  "handler_select_job env s = getNextJobToProcess env s \<and>
   (db_error env SelectInProgress = None \<and>
    (\<exists>j\<in>set (jobs s). in_progress (job_status j)) \<longrightarrow>
      (\<exists>j. getNextJobToProcess env s = Some j \<and> j \<in> set (jobs s) \<and>
           in_progress (job_status j) \<and>
           (\<forall>k\<in>set (jobs s). in_progress (job_status k) \<longrightarrow> created_at j \<le> created_at k))) \<and>
   ((db_error env SelectInProgress \<noteq> None \<or>
     \<not> (\<exists>j\<in>set (jobs s). in_progress (job_status j))) \<and>
    db_error env SelectPending = None \<and> (\<exists>j\<in>set (jobs s). job_status j = Pending) \<longrightarrow>
      (\<exists>j. getNextJobToProcess env s = Some j \<and> j \<in> set (jobs s) \<and> job_status j = Pending \<and>
           (\<forall>k\<in>set (jobs s). job_status k = Pending \<longrightarrow> created_at j \<le> created_at k))) \<and>
   ((db_error env SelectInProgress \<noteq> None \<or>
     \<not> (\<exists>j\<in>set (jobs s). in_progress (job_status j))) \<and>
    (db_error env SelectPending \<noteq> None \<or> \<not> (\<exists>j\<in>set (jobs s). job_status j = Pending)) \<longrightarrow>
      getNextJobToProcess env s = None)"
  using getNextJobToProcess_cases [of env s] handler_select_job_eq [of env s] by blast

theorem job_selection_by_query_outcome_witness:
  "map_option job_id (getNextJobToProcess quiet_env resumed_store) = Some 1 \<and>
   map_option job_id (handler_select_job quiet_env resumed_store) = Some 1"
proof -
  have "db_error quiet_env SelectInProgress = None \<and>
      (\<exists>j\<in>set (jobs resumed_store). in_progress (job_status j))"
    by (simp add: resumed_store_def in_progress_def quiet_env_def)
  with job_selection_by_query_outcome [of quiet_env resumed_store]
  obtain j where j: "getNextJobToProcess quiet_env resumed_store = Some j"
      "j \<in> set (jobs resumed_store)" "in_progress (job_status j)"
    and h: "handler_select_job quiet_env resumed_store =
        getNextJobToProcess quiet_env resumed_store"
    by blast
  from j(2,3) have "job_id j = 1" by (auto simp: resumed_store_def in_progress_def)
  then show ?thesis using j(1) h by simp
qed

section \<open>The Write stage on short drafts\<close>

lemma one_short_paragraph:
  assumes "split_paragraphs [] c = [c]" "length c < 30"
  shows "suggestLinks c = []" "lib_suggestLinks c = []" "place_links suggestLinks c = c"
    "place_links lib_suggestLinks c = c"
proof -
  show a: "suggestLinks c = []"
    using assms
    by (simp add: suggestLinks_def suggestLinks_with_def sortedOpportunities_def js_sort_def)
  show b: "lib_suggestLinks c = []"
    using assms
    by (simp add: lib_suggestLinks_def lib_suggestLinks_with_def js_sort_def slice_def Let_def)
  show "place_links suggestLinks c = c" "place_links lib_suggestLinks c = c"
    by (simp_all add: place_links_def a b)
qed

lemma drafts_one_paragraph:
  "split_paragraphs [] (str ''text'') = [str ''text'']"
  "split_paragraphs [] (str ''seo text'') = [str ''seo text'']"
  by (simp_all add: str_simps)

lemma drafts_occurrences:
  "map (occurrences ascii_tables (str ''text'')) (recommendedTerms seo_analysis) = [0, 0, 0]"
  "map (occurrences ascii_tables (str ''seo text'')) (recommendedTerms seo_analysis) = [1, 0, 0]"
  by (simp_all add: seo_analysis_def occurrences_def countOccurrences_def
      ascii_tables_def ascii_lower_def ascii_upper_def str_simps)

lemma retry_arithmetic:
  "Math_round (js_add (js_add (js_mul (js_div 0 9) 50) 30) 20) = 50"
  "Math_round (js_add (js_add (js_mul (js_div 1 9) 50) 30) 20) = 56"
  by code_simp+


lemma seo_terms_tiers:
  "critical_tier (recommendedTerms seo_analysis) = recommendedTerms seo_analysis"
  "important_tier (recommendedTerms seo_analysis) = []"
  "supporting_tier (recommendedTerms seo_analysis) = []"
  "length (recommendedTerms seo_analysis) = 3"
  by (simp_all add: seo_analysis_def critical_tier_def important_tier_def supporting_tier_def)

lemma seo_critical_scores:
  "critical_score ascii_tables (str ''text'') (recommendedTerms seo_analysis) = 0"
  "critical_score ascii_tables (str ''seo text'') (recommendedTerms seo_analysis) = 1"
proof -
  have "\<And>c. critical_score ascii_tables c (recommendedTerms seo_analysis) =
      sum_list (map critical_points
        (map (occurrences ascii_tables c) (recommendedTerms seo_analysis)))"
    by (simp add: critical_score_def seo_terms_tiers comp_def)
  then show "critical_score ascii_tables (str ''text'') (recommendedTerms seo_analysis) = 0"
    "critical_score ascii_tables (str ''seo text'') (recommendedTerms seo_analysis) = 1"
    by (simp_all only: drafts_occurrences) (simp_all add: critical_points_def)
qed

lemma seo_scores:
  "percentage (calculateScore ascii_tables (str ''text'') seo_analysis) = 50"
  "percentage (calculateScore ascii_tables (str ''seo text'') seo_analysis) = 56"
  using retry_arithmetic
  by (simp_all add: percentage_calculateScore spec_percentage_def critical_share_def
      important_share_def supporting_share_def tier_share_def seo_terms_tiers
      seo_critical_scores important_score_def supporting_score_def)

lemma seo_missing:
  "missingTerms (calculateScore ascii_tables (str ''text'') seo_analysis) =
     [str ''seo'', str ''bank'', str ''rate'']"
proof -
  have "filter (\<lambda>t. occurrences ascii_tables (str ''text'') t < 3) (recommendedTerms seo_analysis)
      = recommendedTerms seo_analysis"
  proof (rule filter_True, rule ballI)
    fix t assume "t \<in> set (recommendedTerms seo_analysis)"
    then have "occurrences ascii_tables (str ''text'') t \<in>
        set (map (occurrences ascii_tables (str ''text'')) (recommendedTerms seo_analysis))"
      by simp
    then show "occurrences ascii_tables (str ''text'') t < 3"
      unfolding drafts_occurrences by simp
  qed
  then show ?thesis
    by (simp add: missingTerms_calculateScore seo_terms_tiers) (simp add: seo_analysis_def)
qed

section \<open>Calls of the writing fetcher and stored scores\<close>

lemma generate_cases:
  assumes "writeBlog env (first_request job brief (Some nd)) = Inr b1"
  shows "generate env sg job brief (Some nd) s =
     (if percentage (draft_score env sg nd b1) < MIN_ACCEPTABLE_SCORE
      then
        (case writeBlog env (retry_request job brief nd (draft_score env sg nd b1)) of
           Inl e \<Rightarrow>
             (Inl e, s\<lparr>write_log := write_log s @
                 [first_request job brief (Some nd),
                  retry_request job brief nd (draft_score env sg nd b1)]\<rparr>)
         | Inr b2 \<Rightarrow>
             (Inr (b2, linked_draft sg b2, Some (percentage (draft_score env sg nd b2))),
              s\<lparr>write_log := write_log s @
                 [first_request job brief (Some nd),
                  retry_request job brief nd (draft_score env sg nd b1)]\<rparr>))
      else (Inr (b1, linked_draft sg b1, Some (percentage (draft_score env sg nd b1))),
            s\<lparr>write_log := write_log s @ [first_request job brief (Some nd)]\<rparr>))"
  using assms
  by (simp add: generate_def call_writeBlog_def Let_def draft_score_def linked_draft_def
      split: sum.splits)

lemma generate_calls:
  "length (write_log (snd (generate env sg job brief nd s))) \<le> length (write_log s) + 2"
  by (auto simp: generate_def call_writeBlog_def Let_def split: sum.splits option.splits)

lemma generate_blogs: "blogs (snd (generate env sg job brief nd s)) = blogs s"
  using generate_store [of env sg job brief nd s] by auto

lemma write_try_logs:
  assumes sel: "select_job (job_id job) s = Some jobData"
    and nf: "\<not> falsy (research_analyzed jobData)"
    and g: "generate env lib_suggestLinks job (the (research_analyzed jobData))
              (neuronwriter_data jobData) s = (g, s1)"
  shows "write_log (snd (write_try env job s)) = write_log s1"
    and "map neuronwriter_score (blogs (snd (write_try env job s))) =
         map neuronwriter_score (blogs s) @
           (case g of Inl e \<Rightarrow> []
            | Inr (b, content, sc) \<Rightarrow>
                (case db_error env InsertBlog of Some m \<Rightarrow> [] | None \<Rightarrow> [sc]))"
proof -
  have b1: "blogs s1 = blogs s" using generate_blogs [of env lib_suggestLinks job _ _ s] g
    by (metis snd_conv)
  show "write_log (snd (write_try env job s)) = write_log s1"
    using sel nf g
    by (auto simp: write_try_def saveBlog_def updateJobStatus_def incrementBatchProgress_def
        set_status_def Let_def split: sum.splits option.splits prod.splits)
  show "map neuronwriter_score (blogs (snd (write_try env job s))) =
         map neuronwriter_score (blogs s) @
           (case g of Inl e \<Rightarrow> []
            | Inr (b, content, sc) \<Rightarrow>
                (case db_error env InsertBlog of Some m \<Rightarrow> [] | None \<Rightarrow> [sc]))"
    using sel nf g b1
    by (auto simp: write_try_def saveBlog_def updateJobStatus_def incrementBatchProgress_def
        set_status_def Let_def split: sum.splits option.splits prod.splits)
qed

lemma write_try_unselected:
  assumes "select_job (job_id job) s = None \<or>
     (\<exists>jobData. select_job (job_id job) s = Some jobData \<and> falsy (research_analyzed jobData))"
  shows "snd (write_try env job s) = s"
  using assms by (auto simp: write_try_def)

lemma doWriteStep_logs:
  "write_log (snd (doWriteStep env job s)) = write_log (snd (write_try env job s))"
  "blogs (snd (doWriteStep env job s)) = blogs (snd (write_try env job s))"
  by (auto simp: doWriteStep_def setJobError_def updateJobStatus_def incrementBatchProgress_def
      set_status_def set_fields_def Let_def split: sum.splits option.splits prod.splits)

lemma edge_write_try_logs:
  assumes sel: "select_job (job_id job) s = Some jobData"
    and nf: "\<not> falsy (research_analyzed jobData)"
    and nd: "neuronwriter_data jobData = Some nd"
    and g: "generate env suggestLinks job (the (research_analyzed jobData)) (Some nd) s = (g, s1)"
  shows "write_log (snd (edge_write_try env job s)) = write_log s1"
    and "map neuronwriter_score (blogs (snd (edge_write_try env job s))) =
         map neuronwriter_score (blogs s) @
           (case g of Inl e \<Rightarrow> []
            | Inr (b, content, sc) \<Rightarrow>
                (case db_error env InsertBlog of
                   Some m \<Rightarrow> []
                 | None \<Rightarrow>
                     [case (if falsy (queryId nd) then None
                            else if import_success (importToNeuronWriter env (the (queryId nd))
                                      (br_title b) (br_metaDescription b)
                                      (postProcessContent env content))
                            then contentScore (importToNeuronWriter env (the (queryId nd))
                                      (br_title b) (br_metaDescription b)
                                      (postProcessContent env content))
                            else None) of
                        Some v \<Rightarrow> Some v | None \<Rightarrow> sc]))"
proof -
  have b1: "blogs s1 = blogs s" using generate_blogs [of env suggestLinks job _ _ s] g
    by (metis snd_conv)
  show "write_log (snd (edge_write_try env job s)) = write_log s1"
    using sel nf nd g
    by (auto simp: edge_write_try_def ignoring_error_def edge_increment_def set_status_def Let_def
        split: sum.splits option.splits prod.splits)
  show "map neuronwriter_score (blogs (snd (edge_write_try env job s))) =
         map neuronwriter_score (blogs s) @
           (case g of Inl e \<Rightarrow> []
            | Inr (b, content, sc) \<Rightarrow>
                (case db_error env InsertBlog of
                   Some m \<Rightarrow> []
                 | None \<Rightarrow>
                     [case (if falsy (queryId nd) then None
                            else if import_success (importToNeuronWriter env (the (queryId nd))
                                      (br_title b) (br_metaDescription b)
                                      (postProcessContent env content))
                            then contentScore (importToNeuronWriter env (the (queryId nd))
                                      (br_title b) (br_metaDescription b)
                                      (postProcessContent env content))
                            else None) of
                        Some v \<Rightarrow> Some v | None \<Rightarrow> sc]))"
    using sel nf nd g b1
    by (auto simp: edge_write_try_def ignoring_error_def edge_increment_def set_status_def Let_def
        split: sum.splits option.splits prod.splits)
qed

lemma edge_doWriteStep_logs:
  "write_log (snd (edge_doWriteStep env job s)) = write_log (snd (edge_write_try env job s))"
  "blogs (snd (edge_doWriteStep env job s)) = blogs (snd (edge_write_try env job s))"
  by (auto simp: edge_doWriteStep_def ignoring_error_def edge_increment_def set_status_def
      set_fields_def Let_def split: option.splits prod.splits)

lemma write_try_calls:
  "length (write_log (snd (write_try env job s))) \<le> length (write_log s) + 2"
proof (cases "select_job (job_id job) s")
  case None
  then show ?thesis by (simp add: write_try_unselected)
next
  case (Some jobData)
  show ?thesis
  proof (cases "falsy (research_analyzed jobData)")
    case True
    then show ?thesis using Some by (simp add: write_try_unselected)
  next
    case False
    define G where "G = generate env lib_suggestLinks job (the (research_analyzed jobData))
              (neuronwriter_data jobData) s"
    have g: "generate env lib_suggestLinks job (the (research_analyzed jobData))
              (neuronwriter_data jobData) s = (fst G, snd G)"
      by (simp add: G_def)
    show ?thesis
      unfolding write_try_logs(1) [OF Some False g] G_def by (rule generate_calls)
  qed
qed

lemma edge_write_try_calls:
  "length (write_log (snd (edge_write_try env job s))) \<le> length (write_log s) + 2"
proof (cases "select_job (job_id job) s")
  case None
  then show ?thesis by (simp add: edge_write_try_def)
next
  case (Some jobData)
  show ?thesis
  proof (cases "falsy (research_analyzed jobData)")
    case True
    then show ?thesis using Some by (simp add: edge_write_try_def)
  next
    case False
    have "write_log (snd (edge_write_try env job s)) =
        write_log (snd (generate env suggestLinks job (the (research_analyzed jobData))
              (neuronwriter_data jobData) s))"
      using Some False
      by (auto simp: edge_write_try_def ignoring_error_def edge_increment_def set_status_def Let_def
          split: sum.splits option.splits prod.splits)
    then show ?thesis
      using generate_calls [of env suggestLinks job "the (research_analyzed jobData)"
          "neuronwriter_data jobData" s]
      by simp
  qed
qed

lemma write_stage_scores:
  assumes sel: "select_job (job_id job) s = Some jobData"
    and brief: "research_analyzed jobData = Some brief" "brief \<noteq> []"
    and seo: "neuronwriter_data jobData = Some nd"
    and first: "writeBlog env (first_request job brief (Some nd)) = Inr b1"
    and ins: "db_error env InsertBlog = None"
  shows "(if percentage (draft_score env lib_suggestLinks nd b1) < 60
      then write_log (snd (doWriteStep env job s)) =
             write_log s @ [first_request job brief (Some nd),
                            retry_request job brief nd (draft_score env lib_suggestLinks nd b1)] \<and>
           (case writeBlog env (retry_request job brief nd (draft_score env lib_suggestLinks nd b1)) of
              Inl e \<Rightarrow>
                map neuronwriter_score (blogs (snd (doWriteStep env job s))) =
                  map neuronwriter_score (blogs s)
            | Inr b2 \<Rightarrow>
                map neuronwriter_score (blogs (snd (doWriteStep env job s))) =
                  map neuronwriter_score (blogs s) @
                    [Some (percentage (draft_score env lib_suggestLinks nd b2))])
      else write_log (snd (doWriteStep env job s)) =
             write_log s @ [first_request job brief (Some nd)] \<and>
           map neuronwriter_score (blogs (snd (doWriteStep env job s))) =
             map neuronwriter_score (blogs s) @
               [Some (percentage (draft_score env lib_suggestLinks nd b1))]) \<and>
    (if percentage (draft_score env suggestLinks nd b1) < 60
      then write_log (snd (edge_doWriteStep env job s)) =
             write_log s @ [first_request job brief (Some nd),
                            retry_request job brief nd (draft_score env suggestLinks nd b1)] \<and>
           (case writeBlog env (retry_request job brief nd (draft_score env suggestLinks nd b1)) of
              Inl e \<Rightarrow>
                map neuronwriter_score (blogs (snd (edge_doWriteStep env job s))) =
                  map neuronwriter_score (blogs s)
            | Inr b2 \<Rightarrow>
                map neuronwriter_score (blogs (snd (edge_doWriteStep env job s))) =
                  map neuronwriter_score (blogs s) @
                    [case official_score env nd b2 of
                       Some v \<Rightarrow> Some v
                     | None \<Rightarrow> Some (percentage (draft_score env suggestLinks nd b2))])
      else write_log (snd (edge_doWriteStep env job s)) =
             write_log s @ [first_request job brief (Some nd)] \<and>
           map neuronwriter_score (blogs (snd (edge_doWriteStep env job s))) =
             map neuronwriter_score (blogs s) @
               [case official_score env nd b1 of
                  Some v \<Rightarrow> Some v
                | None \<Rightarrow> Some (percentage (draft_score env suggestLinks nd b1))]) \<and>
    length (write_log (snd (doWriteStep env' job' s0))) \<le> length (write_log s0) + 2 \<and>
    length (write_log (snd (edge_doWriteStep env' job' s0))) \<le> length (write_log s0) + 2"
proof -
  have nf: "\<not> falsy (research_analyzed jobData)" using brief by (simp add: falsy_def)
  have br: "the (research_analyzed jobData) = brief" using brief by simp
  define G where "G = generate env lib_suggestLinks job brief (Some nd) s"
  have g: "generate env lib_suggestLinks job (the (research_analyzed jobData))
              (neuronwriter_data jobData) s = (fst G, snd G)"
    by (simp add: G_def br seo)
  note l = write_try_logs [OF sel nf g]
  have G: "G =
     (if percentage (draft_score env lib_suggestLinks nd b1) < 60
      then
        (case writeBlog env (retry_request job brief nd (draft_score env lib_suggestLinks nd b1)) of
           Inl e \<Rightarrow>
             (Inl e, s\<lparr>write_log := write_log s @
                 [first_request job brief (Some nd),
                  retry_request job brief nd (draft_score env lib_suggestLinks nd b1)]\<rparr>)
         | Inr b2 \<Rightarrow>
             (Inr (b2, linked_draft lib_suggestLinks b2,
                   Some (percentage (draft_score env lib_suggestLinks nd b2))),
              s\<lparr>write_log := write_log s @
                 [first_request job brief (Some nd),
                  retry_request job brief nd (draft_score env lib_suggestLinks nd b1)]\<rparr>))
      else (Inr (b1, linked_draft lib_suggestLinks b1,
                 Some (percentage (draft_score env lib_suggestLinks nd b1))),
            s\<lparr>write_log := write_log s @ [first_request job brief (Some nd)]\<rparr>))"
    unfolding G_def generate_cases [OF first] MIN_ACCEPTABLE_SCORE_def ..
  have lib: "(if percentage (draft_score env lib_suggestLinks nd b1) < 60
      then write_log (snd (doWriteStep env job s)) =
             write_log s @ [first_request job brief (Some nd),
                            retry_request job brief nd (draft_score env lib_suggestLinks nd b1)] \<and>
           (case writeBlog env (retry_request job brief nd (draft_score env lib_suggestLinks nd b1)) of
              Inl e \<Rightarrow>
                map neuronwriter_score (blogs (snd (doWriteStep env job s))) =
                  map neuronwriter_score (blogs s)
            | Inr b2 \<Rightarrow>
                map neuronwriter_score (blogs (snd (doWriteStep env job s))) =
                  map neuronwriter_score (blogs s) @
                    [Some (percentage (draft_score env lib_suggestLinks nd b2))])
      else write_log (snd (doWriteStep env job s)) =
             write_log s @ [first_request job brief (Some nd)] \<and>
           map neuronwriter_score (blogs (snd (doWriteStep env job s))) =
             map neuronwriter_score (blogs s) @
               [Some (percentage (draft_score env lib_suggestLinks nd b1))])"
    unfolding doWriteStep_logs l
    using ins l(2) by (auto simp: G split: sum.splits)
  define E where "E = generate env suggestLinks job brief (Some nd) s"
  have e: "generate env suggestLinks job (the (research_analyzed jobData)) (Some nd) s =
      (fst E, snd E)"
    by (simp add: E_def br)
  note k = edge_write_try_logs [OF sel nf seo e]
  have E: "E =
     (if percentage (draft_score env suggestLinks nd b1) < 60
      then
        (case writeBlog env (retry_request job brief nd (draft_score env suggestLinks nd b1)) of
           Inl e \<Rightarrow>
             (Inl e, s\<lparr>write_log := write_log s @
                 [first_request job brief (Some nd),
                  retry_request job brief nd (draft_score env suggestLinks nd b1)]\<rparr>)
         | Inr b2 \<Rightarrow>
             (Inr (b2, linked_draft suggestLinks b2,
                   Some (percentage (draft_score env suggestLinks nd b2))),
              s\<lparr>write_log := write_log s @
                 [first_request job brief (Some nd),
                  retry_request job brief nd (draft_score env suggestLinks nd b1)]\<rparr>))
      else (Inr (b1, linked_draft suggestLinks b1,
                 Some (percentage (draft_score env suggestLinks nd b1))),
            s\<lparr>write_log := write_log s @ [first_request job brief (Some nd)]\<rparr>))"
    unfolding E_def generate_cases [OF first] MIN_ACCEPTABLE_SCORE_def ..
  have edge: "(if percentage (draft_score env suggestLinks nd b1) < 60
      then write_log (snd (edge_doWriteStep env job s)) =
             write_log s @ [first_request job brief (Some nd),
                            retry_request job brief nd (draft_score env suggestLinks nd b1)] \<and>
           (case writeBlog env (retry_request job brief nd (draft_score env suggestLinks nd b1)) of
              Inl e \<Rightarrow>
                map neuronwriter_score (blogs (snd (edge_doWriteStep env job s))) =
                  map neuronwriter_score (blogs s)
            | Inr b2 \<Rightarrow>
                map neuronwriter_score (blogs (snd (edge_doWriteStep env job s))) =
                  map neuronwriter_score (blogs s) @
                    [case official_score env nd b2 of
                       Some v \<Rightarrow> Some v
                     | None \<Rightarrow> Some (percentage (draft_score env suggestLinks nd b2))])
      else write_log (snd (edge_doWriteStep env job s)) =
             write_log s @ [first_request job brief (Some nd)] \<and>
           map neuronwriter_score (blogs (snd (edge_doWriteStep env job s))) =
             map neuronwriter_score (blogs s) @
               [case official_score env nd b1 of
                  Some v \<Rightarrow> Some v
                | None \<Rightarrow> Some (percentage (draft_score env suggestLinks nd b1))])"
    unfolding edge_doWriteStep_logs k
    using ins k(2) by (auto simp: E official_score_def Let_def split: sum.splits)
  have calls: "length (write_log (snd (doWriteStep env' job' s0))) \<le> length (write_log s0) + 2"
    "length (write_log (snd (edge_doWriteStep env' job' s0))) \<le> length (write_log s0) + 2"
    unfolding doWriteStep_logs edge_doWriteStep_logs
    by (rule write_try_calls, rule edge_write_try_calls)
  from lib edge calls show ?thesis by (intro conjI)
qed

lemma retry_env_facts:
  "tables retry_env = ascii_tables"
  "writeBlog retry_env request =
     Inr (case write_retry request of None \<Rightarrow> plain_answer | Some r \<Rightarrow> seo_answer)"
  "db_error retry_env site = None"
  "official_score retry_env seo_analysis answer = Some 88"
  by (simp_all add: retry_env_def quiet_env_def official_score_def seo_analysis_def falsy_def
      str_simps)

lemma seo_job_facts:
  "select_job (job_id seo_job) seo_writing_store = Some seo_job"
  "research_analyzed seo_job = Some (str ''brief'')"
  "str ''brief'' \<noteq> []"
  "neuronwriter_data seo_job = Some seo_analysis"
  "blogs seo_writing_store = []"
  "write_log seo_writing_store = []"
  by (simp_all add: select_job_def seo_writing_store_def seo_job_def str_simps)

lemma example_drafts:
  "linked_draft suggestLinks plain_answer = str ''text''"
  "linked_draft lib_suggestLinks plain_answer = str ''text''"
  "linked_draft suggestLinks seo_answer = str ''seo text''"
  "linked_draft lib_suggestLinks seo_answer = str ''seo text''"
  using one_short_paragraph(3,4) [OF drafts_one_paragraph(1)]
    one_short_paragraph(3,4) [OF drafts_one_paragraph(2)]
  by (simp_all add: linked_draft_def plain_answer_def seo_answer_def str_simps)

lemma example_scores:
  "percentage (draft_score retry_env suggestLinks seo_analysis plain_answer) = 50"
  "percentage (draft_score retry_env lib_suggestLinks seo_analysis plain_answer) = 50"
  "percentage (draft_score retry_env suggestLinks seo_analysis seo_answer) = 56"
  "percentage (draft_score retry_env lib_suggestLinks seo_analysis seo_answer) = 56"
  "missingTerms (draft_score retry_env suggestLinks seo_analysis plain_answer) =
     [str ''seo'', str ''bank'', str ''rate'']"
  "missingTerms (draft_score retry_env lib_suggestLinks seo_analysis plain_answer) =
     [str ''seo'', str ''bank'', str ''rate'']"
  by (simp_all only: draft_score_def example_drafts retry_env_facts seo_scores seo_missing)

lemma example_requests:
  "writeBlog retry_env (first_request seo_job (str ''brief'') (Some seo_analysis)) =
     Inr plain_answer"
  "writeBlog retry_env (retry_request seo_job (str ''brief'') seo_analysis r) = Inr seo_answer"
  "write_retry (first_request seo_job (str ''brief'') (Some seo_analysis)) = None"
  "write_retry (retry_request seo_job (str ''brief'') seo_analysis r) =
     Some \<lparr>missingKeywords = missingTerms r, previousScore = percentage r, attempt = 2\<rparr>"
  by (simp_all add: retry_env_facts first_request_def retry_request_def)

section \<open>Properties of the Write stage\<close>

text \<open>
  C4, as stated, fails for the edge function. The first draft scores 50, so the article is
  generated a second time, with the three missing terms and the score 50; the second draft
  scores 56; the provider scores the imported text 88, and 88 is the score stored with the
  blog.
\<close>

theorem edge_write_stage_stores_official_score:
  "percentage (draft_score retry_env suggestLinks seo_analysis plain_answer) = 50 \<and>
   map write_retry (write_log (snd (edge_doWriteStep retry_env seo_job seo_writing_store))) =
     [None, Some \<lparr>missingKeywords = [str ''seo'', str ''bank'', str ''rate''],
                  previousScore = 50, attempt = 2\<rparr>] \<and>
   writeBlog retry_env
     (retry_request seo_job (str ''brief'') seo_analysis
        (draft_score retry_env suggestLinks seo_analysis plain_answer)) = Inr seo_answer \<and>
   percentage (draft_score retry_env suggestLinks seo_analysis seo_answer) = 56 \<and>
   map neuronwriter_score (blogs (snd (edge_doWriteStep retry_env seo_job seo_writing_store))) =
     [Some 88]"
  using write_stage_scores [OF seo_job_facts(1,2,3,4) example_requests(1) retry_env_facts(3)]
  by (simp add: example_scores example_requests retry_env_facts seo_job_facts)

text \<open>
  C4, amended. Take a job in the Write stage with a brief and SEO data, a first answer of
  the writing fetcher, and a store that accepts the blog. When the computed score of the
  first draft (the answer with links placed) is below 60, the stage calls the writing
  fetcher exactly once more, with the missing terms and the score of the first draft, and
  the second draft has its links placed and is scored; otherwise the fetcher is called
  once. The library stores with the blog the computed score of the last draft generated.
  The edge function stores the score the provider gives on import of the final text when
  it gives one, and the computed score of the last draft otherwise. In no case does either
  Write stage call the writing fetcher more than twice.
\<close>

theorem write_stage_regenerates_at_most_once:
  assumes "select_job (job_id job) s = Some jobData"
    and "research_analyzed jobData = Some brief" and "brief \<noteq> []"
    and "neuronwriter_data jobData = Some nd"
    and "writeBlog env (first_request job brief (Some nd)) = Inr b1"
    and "db_error env InsertBlog = None"
  shows "(if percentage (draft_score env lib_suggestLinks nd b1) < 60
      then write_log (snd (doWriteStep env job s)) =
             write_log s @ [first_request job brief (Some nd),
                            retry_request job brief nd (draft_score env lib_suggestLinks nd b1)] \<and>
           (case writeBlog env (retry_request job brief nd (draft_score env lib_suggestLinks nd b1)) of
              Inl e \<Rightarrow>
                map neuronwriter_score (blogs (snd (doWriteStep env job s))) =
                  map neuronwriter_score (blogs s)
            | Inr b2 \<Rightarrow>
                map neuronwriter_score (blogs (snd (doWriteStep env job s))) =
                  map neuronwriter_score (blogs s) @
                    [Some (percentage (draft_score env lib_suggestLinks nd b2))])
      else write_log (snd (doWriteStep env job s)) =
             write_log s @ [first_request job brief (Some nd)] \<and>
           map neuronwriter_score (blogs (snd (doWriteStep env job s))) =
             map neuronwriter_score (blogs s) @
               [Some (percentage (draft_score env lib_suggestLinks nd b1))]) \<and>
    (if percentage (draft_score env suggestLinks nd b1) < 60
      then write_log (snd (edge_doWriteStep env job s)) =
             write_log s @ [first_request job brief (Some nd),
                            retry_request job brief nd (draft_score env suggestLinks nd b1)] \<and>
           (case writeBlog env (retry_request job brief nd (draft_score env suggestLinks nd b1)) of
              Inl e \<Rightarrow>
                map neuronwriter_score (blogs (snd (edge_doWriteStep env job s))) =
                  map neuronwriter_score (blogs s)
            | Inr b2 \<Rightarrow>
                map neuronwriter_score (blogs (snd (edge_doWriteStep env job s))) =
                  map neuronwriter_score (blogs s) @
                    [case official_score env nd b2 of
                       Some v \<Rightarrow> Some v
                     | None \<Rightarrow> Some (percentage (draft_score env suggestLinks nd b2))])
      else write_log (snd (edge_doWriteStep env job s)) =
             write_log s @ [first_request job brief (Some nd)] \<and>
           map neuronwriter_score (blogs (snd (edge_doWriteStep env job s))) =
             map neuronwriter_score (blogs s) @
               [case official_score env nd b1 of
                  Some v \<Rightarrow> Some v
                | None \<Rightarrow> Some (percentage (draft_score env suggestLinks nd b1))]) \<and>
    length (write_log (snd (doWriteStep env' job' s0))) \<le> length (write_log s0) + 2 \<and>
    length (write_log (snd (edge_doWriteStep env' job' s0))) \<le> length (write_log s0) + 2"
  using assms by (rule write_stage_scores)

theorem write_stage_regenerates_at_most_once_witness:
  "length (write_log (snd (doWriteStep retry_env seo_job seo_writing_store))) = 2 \<and>
   map neuronwriter_score (blogs (snd (doWriteStep retry_env seo_job seo_writing_store))) =
     [Some 56] \<and>
   length (write_log (snd (edge_doWriteStep retry_env seo_job seo_writing_store))) = 2 \<and>
   map neuronwriter_score (blogs (snd (edge_doWriteStep retry_env seo_job seo_writing_store))) =
     [Some 88]"
  using write_stage_regenerates_at_most_once
    [OF seo_job_facts(1,2,3,4) example_requests(1) retry_env_facts(3)]
  by (simp add: example_scores example_requests retry_env_facts seo_job_facts)

end
